theory Spec2Isabelle
  imports Main "HOL-Library.AList" "HOL-Library.Sublist"
begin

section \<open>Data model\<close>

text \<open>
  The orchestrator of \<^verbatim>\<open>buildtest/executors/setup.py\<close> (class \<^verbatim>\<open>BuildExecutor\<close>).
  Builder objects are compared by object identity (Python's default for a class that
  defines no equality of its own), so the tracking containers hold references into an
  explicit store of builder objects.
\<close>

type_synonym ref = nat

text \<open>
  The exceptions that can leave the methods: \<^verbatim>\<open>ExecutorError\<close> of
  \<^verbatim>\<open>buildtest.exceptions\<close>, which \<^verbatim>\<open>_choose_executor\<close> raises (the specification calls
  it the configuration error), and Python's own \<^verbatim>\<open>AttributeError\<close>, \<^verbatim>\<open>TypeError\<close> and
  \<^verbatim>\<open>ValueError\<close>. A \<^verbatim>\<open>ValueError\<close> carries its message, which tells the three calls
  that raise it apart: \<^verbatim>\<open>list.remove\<close>, \<^verbatim>\<open>time.sleep\<close> and \<^verbatim>\<open>multiprocessing.Pool\<close>.
\<close>

datatype error = ExecutorError | AttributeError | TypeError | ValueError string

definition not_in_list :: string where
  "not_in_list = ''list.remove(x): x not in list''"

definition negative_sleep :: string where
  "negative_sleep = ''sleep length must be non-negative''"

definition no_processes :: string where
  "no_processes = ''Number of processes must be at least 1''"

text \<open>
  Modelled from the spec: the class \<^verbatim>\<open>BuilderBase\<close> is not part of the sources at
  hand. A builder names its target executor, optionally owns a job handle
  (\<^verbatim>\<open>builder.job\<close>), and carries the two state flags that \<^verbatim>\<open>is_complete()\<close> and
  \<^verbatim>\<open>is_failure()\<close> read; the contract does not make the two flags exclusive.
\<close>

record builder =
  name :: string
  executor :: string
  job :: "string option"
  complete :: bool
  failure :: bool

definition is_batch_job :: "builder \<Rightarrow> bool" where
  "is_batch_job b = (job b \<noteq> None)"

definition is_complete :: "builder \<Rightarrow> bool" where
  "is_complete b = complete b"

definition is_failure :: "builder \<Rightarrow> bool" where
  "is_failure b = failure b"

text \<open>The settings of one executor: the \<^verbatim>\<open>module\<close> and \<^verbatim>\<open>before_script\<close> keys.\<close>

record settings =
  module :: "string option"
  before_script :: "string option"

datatype kind = Local | Slurm | LSF | PBS | Cobalt

text \<open>
  Modelled from the spec: the executor classes (\<^verbatim>\<open>LocalExecutor\<close>, \<^verbatim>\<open>SlurmExecutor\<close>,
  \<^verbatim>\<open>LSFExecutor\<close>, \<^verbatim>\<open>PBSExecutor\<close>, \<^verbatim>\<open>CobaltExecutor\<close>) are not part of the sources
  at hand. An executor object keeps what its constructor receives, its \<^verbatim>\<open>type\<close>
  (\<^verbatim>\<open>"local"\<close> exactly for the local executor) and the builders recorded by
  \<^verbatim>\<open>add_builder\<close>.
\<close>

record base_executor =
  e_name :: string
  e_type :: kind
  e_settings :: settings
  e_account :: "string option"
  e_maxpendtime :: "int option"
  e_builders :: "builder list"

definition add_builder :: "builder \<Rightarrow> base_executor \<Rightarrow> base_executor" where
  "add_builder b e = e\<lparr>e_builders := e_builders e @ [b]\<rparr>"

text \<open>
  The validated site configuration: \<^verbatim>\<open>valid_executors[kind]\<close> is an ordered dictionary
  from executor names to settings; \<^verbatim>\<open>cfg_pollinterval\<close> is the value of
  \<^verbatim>\<open>deep_get(target_config, "executors", "defaults", "pollinterval")\<close> and \<^verbatim>\<open>numprocs\<close>
  the value of \<^verbatim>\<open>target_config.get("numprocs")\<close>.
\<close>

record site_config =
  valid_executors :: "kind \<Rightarrow> (string \<times> settings) list"
  cfg_pollinterval :: "int option"
  numprocs :: "int option"

text \<open>
  Everything outside the class: what the backends answer (\<^verbatim>\<open>executor.run\<close>,
  \<^verbatim>\<open>executor.dispatch\<close>, \<^verbatim>\<open>executor.poll\<close>), which asynchronous results are ready in
  which round of the collection loop, \<^verbatim>\<open>os.cpu_count()\<close>, \<^verbatim>\<open>get_module_commands\<close> and
  the constant \<^verbatim>\<open>BUILDTEST_EXECUTOR_DIR\<close>. A unit of work is identified by its position
  in \<^verbatim>\<open>self.builders\<close>; the scheduler's answer to a poll may depend on the time.
\<close>

record world =
  w_run :: "base_executor \<Rightarrow> nat \<Rightarrow> builder \<Rightarrow> builder option"
  w_dispatch :: "base_executor \<Rightarrow> nat \<Rightarrow> builder \<Rightarrow> builder option"
  w_poll :: "base_executor \<Rightarrow> int \<Rightarrow> builder \<Rightarrow> builder"
  w_ready :: "nat \<Rightarrow> nat \<Rightarrow> bool"
  cpu_count :: "int option"
  get_module_commands :: "string option \<Rightarrow> string list option"
  BUILDTEST_EXECUTOR_DIR :: string

text \<open>
  The fields of \<^verbatim>\<open>BuildExecutor\<close> (\<^verbatim>\<open>_completed\<close>, \<^verbatim>\<open>_cancelled\<close>, \<^verbatim>\<open>_pending\<close> and
  \<^verbatim>\<open>_validbuilders\<close> without the underscore; the accessors \<^verbatim>\<open>completed()\<close> and
  \<^verbatim>\<open>cancelled()\<close> are the selectors), followed by the store of builder objects
  (\<open>heap\<close>, with \<open>nxt\<close> the first unused reference), the wall clock that
  \<^verbatim>\<open>time.sleep\<close> advances, and \<open>removals\<close>, the history of the calls
  \<^verbatim>\<open>self._validbuilders.remove(builder)\<close> made so far.
\<close>

record orch =
  builders :: "builder list"
  configuration :: site_config
  pollinterval :: int
  completed :: "ref set"
  cancelled :: "ref set"
  pending :: "ref list"
  validbuilders :: "ref list"
  executors :: "(string \<times> base_executor) list"
  heap :: "ref \<Rightarrow> builder"
  nxt :: ref
  clock :: int
  removals :: "ref list"

section \<open>Python primitives\<close>

text \<open>\<^verbatim>\<open>a or b\<close> on optional integers: \<^verbatim>\<open>None\<close> and \<^verbatim>\<open>0\<close> are false.\<close>

definition py_or :: "int option \<Rightarrow> int option \<Rightarrow> int option" where
  "py_or a b = (case a of None \<Rightarrow> b | Some x \<Rightarrow> if x \<noteq> 0 then Some x else b)"

text \<open>\<^verbatim>\<open>min(a, b)\<close>: comparing with \<^verbatim>\<open>None\<close> raises \<^verbatim>\<open>TypeError\<close>.\<close>

definition py_min :: "int option \<Rightarrow> int option \<Rightarrow> error + int" where
  "py_min a b =
     (case a of None \<Rightarrow> Inl TypeError
      | Some x \<Rightarrow> (case b of None \<Rightarrow> Inl TypeError | Some y \<Rightarrow> Inr (min x y)))"

text \<open>\<^verbatim>\<open>xs.remove(x)\<close>: drops the first occurrence, \<^verbatim>\<open>ValueError\<close> when there is none.\<close>

definition list_remove :: "'a \<Rightarrow> 'a list \<Rightarrow> error + 'a list" where
  "list_remove x xs =
     (if x \<in> set xs then Inr (remove1 x xs) else Inl (ValueError not_in_list))"

text \<open>
  \<^verbatim>\<open>time.sleep(secs)\<close>: a negative length raises \<^verbatim>\<open>ValueError\<close>; otherwise the wall clock
  has advanced by \<open>secs\<close> when the call returns.
\<close>

definition time_sleep :: "int \<Rightarrow> orch \<Rightarrow> error + orch" where
  "time_sleep secs st =
     (if secs < 0 then Inl (ValueError negative_sleep) else Inr (st\<lparr>clock := clock st + secs\<rparr>))"

text \<open>
  \<^verbatim>\<open>multiprocessing.Pool(processes)\<close>: a width below 1 raises \<^verbatim>\<open>ValueError\<close>; otherwise
  the pool has that many workers.
\<close>

definition Pool :: "int \<Rightarrow> error + int" where
  "Pool processes = (if processes < 1 then Inl (ValueError no_processes) else Inr processes)"

definition nl :: string where
  "nl = [CHR 0x0A]"

text \<open>\<^verbatim>\<open>sep.join(xs)\<close>.\<close>

fun join :: "string \<Rightarrow> string list \<Rightarrow> string" where
  "join sep [] = []"
| "join sep [x] = x"
| "join sep (x # y # ys) = x @ sep @ join sep (y # ys)"

section \<open>The file system and the before-scripts\<close>

text \<open>
  \<^verbatim>\<open>os.path.join(a, *p)\<close> of \<^verbatim>\<open>posixpath\<close>: a component that starts with the separator
  replaces what was joined so far; otherwise it is appended, after a separator unless
  the path so far is empty or ends with one.
\<close>

type_synonym path = string

definition join_component :: "path \<Rightarrow> string \<Rightarrow> path" where
  "join_component path b =
     (if b \<noteq> [] \<and> hd b = CHR ''/'' then b
      else if path = [] \<or> last path = CHR ''/'' then path @ b
      else path @ ''/'' @ b)"

definition os_path_join :: "string \<Rightarrow> string list \<Rightarrow> path" where
  "os_path_join a p = foldl join_component a p"

text \<open>
  The file system: the directories and the files, each under the path string it was
  created with. Two strings that spell one path (a doubled separator, a \<^verbatim>\<open>.\<close>
  component, a link) are different keys here, so what is proved of a script path is
  proved for names that are single path components, which spell different paths.
\<close>

record filesystem =
  dirs :: "path set"
  files :: "path \<rightharpoonup> string"

text \<open>
  Modelled from the spec: \<^verbatim>\<open>create_dir\<close> and \<^verbatim>\<open>write_file\<close> of \<^verbatim>\<open>buildtest.utils.file\<close>
  are not part of the sources at hand. Creating a directory that exists changes
  nothing; writing a file replaces its content.
\<close>

definition create_dir :: "path \<Rightarrow> filesystem \<Rightarrow> filesystem" where
  "create_dir p fs = fs\<lparr>dirs := insert p (dirs fs)\<rparr>"

definition write_file :: "path \<Rightarrow> string \<Rightarrow> filesystem \<Rightarrow> filesystem" where
  "write_file p content fs = fs\<lparr>files := (files fs)(p \<mapsto> content)\<rparr>"

section \<open>Registry\<close>

definition names :: "orch \<Rightarrow> string list" where
  "names st = map fst (executors st)"

definition get :: "orch \<Rightarrow> string \<Rightarrow> base_executor option" where
  "get st n = map_of (executors st) n"

definition get_validbuilders :: "orch \<Rightarrow> ref list" where
  "get_validbuilders st = validbuilders st"

text \<open>
  \<^verbatim>\<open>_choose_executor\<close>: every registered object is an instance of \<^verbatim>\<open>BaseExecutor\<close>, so
  the \<^verbatim>\<open>isinstance\<close> test fails exactly when \<^verbatim>\<open>get\<close> returned \<^verbatim>\<open>None\<close>.
\<close>

definition choose_executor :: "orch \<Rightarrow> builder \<Rightarrow> error + base_executor" where
  "choose_executor st b =
     (case get st (executor b) of None \<Rightarrow> Inl ExecutorError | Some e \<Rightarrow> Inr e)"

text \<open>The content that \<^verbatim>\<open>setup\<close> computes for one executor.\<close>

definition script_content :: "world \<Rightarrow> settings \<Rightarrow> string" where
  "script_content w s =
     (let module_cmds = get_module_commands w (module s);
          content = ''#!/bin/bash'' @ nl;
          content = (case module_cmds of
                       None \<Rightarrow> content
                     | Some cmds \<Rightarrow> if cmds \<noteq> [] then content @ join nl cmds @ nl else content)
      in content @ (case before_script s of None \<Rightarrow> [] | Some t \<Rightarrow> t))"

definition setup_executor :: "world \<Rightarrow> orch \<Rightarrow> string \<Rightarrow> filesystem \<Rightarrow> filesystem" where
  "setup_executor w st executor_name fs =
     (let fs = create_dir (os_path_join (BUILDTEST_EXECUTOR_DIR w) [executor_name]) fs
      in case get st executor_name of
           None \<Rightarrow> fs
         | Some e \<Rightarrow>
             write_file
               (os_path_join (BUILDTEST_EXECUTOR_DIR w) [executor_name, ''before_script.sh''])
               (script_content w (e_settings e)) fs)"

text \<open>
  \<^verbatim>\<open>setup\<close>, the loop over \<^verbatim>\<open>self.names()\<close>. (A name returned by \<^verbatim>\<open>names\<close> is always a
  key of \<^verbatim>\<open>self.executors\<close>, so the \<open>None\<close> branch above is never taken here.)
\<close>

definition setup_scripts :: "world \<Rightarrow> orch \<Rightarrow> filesystem \<Rightarrow> filesystem" where
  "setup_scripts w st fs = fold (setup_executor w st) (names st) fs"

text \<open>The constructor calls of \<^verbatim>\<open>__init__\<close>; \<^verbatim>\<open>self.executors[name] = ...\<close> is \<open>AList.update\<close>.\<close>

definition new_executor ::
  "kind \<Rightarrow> string option \<Rightarrow> int option \<Rightarrow> string \<Rightarrow> settings \<Rightarrow> base_executor" where
  "new_executor k account maxpendtime n s =
     \<lparr>e_name = n, e_type = k, e_settings = s,
      e_account = (if k = Local then None else account),
      e_maxpendtime = (if k = Local then None else maxpendtime),
      e_builders = []\<rparr>"

definition init_kind ::
  "site_config \<Rightarrow> string option \<Rightarrow> int option \<Rightarrow> kind \<Rightarrow>
   (string \<times> base_executor) list \<Rightarrow> (string \<times> base_executor) list" where
  "init_kind site_config account maxpendtime k exs =
     (if valid_executors site_config k \<noteq> []
      then fold (\<lambda>(n, s) exs. AList.update n (new_executor k account maxpendtime n s) exs)
             (valid_executors site_config k) exs
      else exs)"

definition init_fields ::
  "site_config \<Rightarrow> string option \<Rightarrow> int option \<Rightarrow> int option \<Rightarrow> orch" where
  "init_fields site_config account maxpendtime pollinterval_arg =
     (let default_interval = 30
      in \<lparr>builders = [],
          configuration = site_config,
          pollinterval =
            (case py_or (py_or pollinterval_arg (cfg_pollinterval site_config))
                        (Some default_interval) of
               Some i \<Rightarrow> i | None \<Rightarrow> default_interval),
          completed = {},
          cancelled = {},
          pending = [],
          validbuilders = [],
          executors =
            fold (init_kind site_config account maxpendtime) [Local, Slurm, LSF, PBS, Cobalt] [],
          heap = (\<lambda>_. \<lparr>name = [], executor = [], job = None, complete = False, failure = False\<rparr>),
          nxt = 0,
          clock = 0,
          removals = []\<rparr>)"

text \<open>\<^verbatim>\<open>__init__\<close>: the fields, then \<^verbatim>\<open>self.setup()\<close> on the file system.\<close>

definition init ::
  "world \<Rightarrow> site_config \<Rightarrow> string option \<Rightarrow> int option \<Rightarrow> int option \<Rightarrow> filesystem \<Rightarrow>
   orch \<times> filesystem" where
  "init w site_config account maxpendtime pollinterval_arg fs =
     (let st = init_fields site_config account maxpendtime pollinterval_arg
      in (st, setup_scripts w st fs))"

section \<open>Submission and collection: \<^verbatim>\<open>run\<close>\<close>

text \<open>
  The first loop of \<^verbatim>\<open>run\<close>: resolve each builder, record it under its executor, append
  it to \<^verbatim>\<open>self.builders\<close>. The first unknown executor name raises.
\<close>

fun register_builders :: "builder list \<Rightarrow> orch \<Rightarrow> error + orch" where
  "register_builders [] st = Inr st"
| "register_builders (b # bs) st =
     (case choose_executor st b of
        Inl e \<Rightarrow> Inl e
      | Inr ex \<Rightarrow>
          register_builders bs
            (st\<lparr>builders := builders st @ [b],
                executors := AList.update (executor b) (add_builder b ex) (executors st)\<rparr>))"

text \<open>
  The width of the worker pool, from \<^verbatim>\<open>numprocs\<close> and \<^verbatim>\<open>os.cpu_count()\<close>; \<^verbatim>\<open>run\<close> hands it
  to \<^verbatim>\<open>multiprocessing.Pool\<close>.
\<close>

definition num_workers :: "int option \<Rightarrow> int option \<Rightarrow> error + int" where
  "num_workers configured cpus = py_min (py_or configured cpus) cpus"

text \<open>
  The second loop of \<^verbatim>\<open>run\<close>: one unit of work per element of \<^verbatim>\<open>self.builders\<close>, which
  is \<^verbatim>\<open>executor.run\<close> for a local executor and \<^verbatim>\<open>executor.dispatch\<close> otherwise. An
  asynchronous result is represented by the position of its unit and the value that
  \<^verbatim>\<open>result.get\<close> yields once it is ready (\<open>None\<close> when no job was produced).
\<close>

fun submit :: "world \<Rightarrow> orch \<Rightarrow> nat \<Rightarrow> builder list \<Rightarrow> error + (nat \<times> builder option) list" where
  "submit w st i [] = Inr []"
| "submit w st i (b # bs) =
     (case choose_executor st b of
        Inl e \<Rightarrow> Inl e
      | Inr ex \<Rightarrow>
          (case submit w st (Suc i) bs of
             Inl e \<Rightarrow> Inl e
           | Inr results \<Rightarrow>
               Inr ((i, if e_type ex = Local then w_run w ex i b else w_dispatch w ex i b)
                    # results)))"

text \<open>
  One pass of the \<^verbatim>\<open>for result in results\<close> loop in round \<open>r\<close>. A result that is not
  ready times out and is skipped. The value of a ready result is a fresh object (it
  comes back from the worker process); the object of unit \<open>i\<close> is stored at
  \<open>nxt st + i\<close>. Only a builder is appended to \<^verbatim>\<open>self._validbuilders\<close>.
\<close>

fun scan_results ::
  "world \<Rightarrow> nat \<Rightarrow> (nat \<times> builder option) list \<Rightarrow> orch \<Rightarrow> (nat \<times> builder option) list \<Rightarrow>
   orch \<times> (nat \<times> builder option) list" where
  "scan_results w r [] st async_results_ready = (st, async_results_ready)"
| "scan_results w r ((i, task) # results) st async_results_ready =
     (if \<not> w_ready w r i then scan_results w r results st async_results_ready
      else scan_results w r results
             (case task of
                None \<Rightarrow> st
              | Some b \<Rightarrow> st\<lparr>validbuilders := validbuilders st @ [nxt st + i],
                             heap := (heap st)(nxt st + i := b)\<rparr>)
             (async_results_ready @ [(i, task)]))"

text \<open>
  The \<^verbatim>\<open>while results\<close> loop. It ends when every result has been retrieved, which
  need never happen; \<open>None\<close> is running out of fuel. The ready results are elements
  of \<^verbatim>\<open>results\<close>, so \<^verbatim>\<open>results.remove(result)\<close> always finds its argument.
\<close>

fun collect ::
  "nat \<Rightarrow> world \<Rightarrow> nat \<Rightarrow> (nat \<times> builder option) list \<Rightarrow> orch \<Rightarrow> orch option" where
  "collect 0 w r results st = (if results = [] then Some st else None)"
| "collect (Suc fuel) w r results st =
     (if results = [] then Some st
      else (case scan_results w r results st [] of
              (st', async_results_ready) \<Rightarrow>
                collect fuel w (Suc r) (fold remove1 async_results_ready results) st'))"

text \<open>The last loop of \<^verbatim>\<open>run\<close>: the batch jobs among the valid builders become pending.\<close>

definition partition_pending :: "orch \<Rightarrow> orch" where
  "partition_pending st =
     st\<lparr>pending := pending st @ filter (\<lambda>r. is_batch_job (heap st r)) (validbuilders st)\<rparr>"

definition run :: "nat \<Rightarrow> world \<Rightarrow> builder list \<Rightarrow> orch \<Rightarrow> (error + orch) option" where
  "run fuel w bs st =
     (case register_builders bs st of
        Inl e \<Rightarrow> Some (Inl e)
      | Inr st1 \<Rightarrow>
          (case num_workers (numprocs (configuration st1)) (cpu_count w) of
             Inl e \<Rightarrow> Some (Inl e)
           | Inr width \<Rightarrow>
               (case Pool width of
                  Inl e \<Rightarrow> Some (Inl e)
                | Inr workers \<Rightarrow>
                    (case submit w st1 0 (builders st1) of
                       Inl e \<Rightarrow> Some (Inl e)
                     | Inr results \<Rightarrow>
                         (case collect fuel w 0 results st1 of
                            None \<Rightarrow> None
                          | Some st2 \<Rightarrow>
                              Some (Inr (partition_pending
                                           (st2\<lparr>nxt := nxt st2 + length (builders st1)\<rparr>))))))))"

section \<open>The polling loop: \<^verbatim>\<open>poll\<close>\<close>

text \<open>
  The \<^verbatim>\<open>for builder in self._pending\<close> loop of one iteration: poll the builder through
  its executor (an unknown executor name makes \<^verbatim>\<open>executor.poll\<close> an attribute access
  on \<^verbatim>\<open>None\<close>), then classify it, \<^verbatim>\<open>is_complete()\<close> first.
\<close>

fun poll_scan ::
  "world \<Rightarrow> ref list \<Rightarrow> orch \<Rightarrow> ref list \<Rightarrow> ref list \<Rightarrow> error + orch \<times> ref list \<times> ref list" where
  "poll_scan w [] st completed_now cancelled_now = Inr (st, completed_now, cancelled_now)"
| "poll_scan w (r # rs) st completed_now cancelled_now =
     (case get st (executor (heap st r)) of
        None \<Rightarrow> Inl AttributeError
      | Some ex \<Rightarrow>
          (let st' = st\<lparr>heap := (heap st)(r := w_poll w ex (clock st) (heap st r))\<rparr>
           in if is_complete (heap st' r) then poll_scan w rs st' (completed_now @ [r]) cancelled_now
              else if is_failure (heap st' r)
                   then poll_scan w rs st' completed_now (cancelled_now @ [r])
                   else poll_scan w rs st' completed_now cancelled_now))"

text \<open>\<^verbatim>\<open>for builder in completed\<close>: out of pending, into completed.\<close>

fun move_completed :: "ref list \<Rightarrow> orch \<Rightarrow> error + orch" where
  "move_completed [] st = Inr st"
| "move_completed (r # rs) st =
     (case list_remove r (pending st) of
        Inl e \<Rightarrow> Inl e
      | Inr p \<Rightarrow> move_completed rs (st\<lparr>pending := p, completed := insert r (completed st)\<rparr>))"

text \<open>
  \<^verbatim>\<open>for builder in cancelled\<close>: out of pending, into cancelled, out of the valid
  builders.
\<close>

fun move_cancelled :: "ref list \<Rightarrow> orch \<Rightarrow> error + orch" where
  "move_cancelled [] st = Inr st"
| "move_cancelled (r # rs) st =
     (case list_remove r (pending st) of
        Inl e \<Rightarrow> Inl e
      | Inr p \<Rightarrow>
          (let s1 = st\<lparr>pending := p\<rparr>;
               s2 = s1\<lparr>cancelled := insert r (cancelled s1)\<rparr>
           in case list_remove r (validbuilders s2) of
                Inl e \<Rightarrow> Inl e
              | Inr v \<Rightarrow>
                  move_cancelled rs
                    (s2\<lparr>validbuilders := v, removals := removals s2 @ [r]\<rparr>)))"

text \<open>
  \<^verbatim>\<open>print_pending_jobs\<close>: one row per pending builder; \<^verbatim>\<open>builder.job.get()\<close> needs the
  job handle.
\<close>

fun pending_rows :: "orch \<Rightarrow> ref list \<Rightarrow> error + (string \<times> string \<times> string) list" where
  "pending_rows st [] = Inr []"
| "pending_rows st (r # rs) =
     (case job (heap st r) of
        None \<Rightarrow> Inl AttributeError
      | Some j \<Rightarrow>
          (case pending_rows st rs of
             Inl e \<Rightarrow> Inl e
           | Inr rows \<Rightarrow> Inr ((name (heap st r), executor (heap st r), j) # rows)))"

definition print_pending_jobs :: "orch \<Rightarrow> error + (string \<times> string \<times> string) list" where
  "print_pending_jobs st = pending_rows st (pending st)"

text \<open>
  The body of the \<^verbatim>\<open>while self._pending\<close> loop: sleep for the poll interval, scan, move
  the completed and the cancelled builders, print the pending jobs.
\<close>

definition poll_iter :: "world \<Rightarrow> orch \<Rightarrow> error + orch" where
  "poll_iter w st =
     (case time_sleep (pollinterval st) st of
        Inl e \<Rightarrow> Inl e
      | Inr st1 \<Rightarrow>
          (case poll_scan w (pending st1) st1 [] [] of
             Inl e \<Rightarrow> Inl e
           | Inr (st2, completed_now, cancelled_now) \<Rightarrow>
               (case move_completed completed_now st2 of
                  Inl e \<Rightarrow> Inl e
                | Inr st3 \<Rightarrow>
                    (case move_cancelled cancelled_now st3 of
                       Inl e \<Rightarrow> Inl e
                     | Inr st4 \<Rightarrow>
                         (case print_pending_jobs st4 of
                            Inl e \<Rightarrow> Inl e
                          | Inr rows \<Rightarrow> Inr st4)))))"

text \<open>The state after at most \<open>n\<close> iterations of the loop.\<close>

fun poll_iters :: "nat \<Rightarrow> world \<Rightarrow> orch \<Rightarrow> error + orch" where
  "poll_iters 0 w st = Inr st"
| "poll_iters (Suc n) w st =
     (if pending st = [] then Inr st
      else (case poll_iter w st of Inl e \<Rightarrow> Inl e | Inr st' \<Rightarrow> poll_iters n w st'))"

text \<open>The final report: the cancelled builders, printed when there are any.\<close>

definition cancelled_report :: "orch \<Rightarrow> ref set option" where
  "cancelled_report st = (if cancelled st \<noteq> {} then Some (cancelled st) else None)"

text \<open>
  \<^verbatim>\<open>poll\<close>: the loop runs until nothing is pending, which need never happen; \<open>None\<close> is
  running out of fuel.
\<close>

fun poll :: "nat \<Rightarrow> world \<Rightarrow> orch \<Rightarrow> (error + orch \<times> ref set option) option" where
  "poll 0 w st = (if pending st = [] then Some (Inr (st, cancelled_report st)) else None)"
| "poll (Suc fuel) w st =
     (if pending st = [] then Some (Inr (st, cancelled_report st))
      else (case poll_iter w st of Inl e \<Rightarrow> Some (Inl e) | Inr st' \<Rightarrow> poll fuel w st'))"

section \<open>The states within an iteration\<close>

text \<open>No builder is in more than one tracking container, nor twice in the pending list.\<close>

definition at_most_one_set :: "orch \<Rightarrow> bool" where
  "at_most_one_set st \<longleftrightarrow>
     distinct (pending st)
     \<and> set (pending st) \<inter> completed st = {}
     \<and> set (pending st) \<inter> cancelled st = {}
     \<and> completed st \<inter> cancelled st = {}"

text \<open>
  The states that the two loops after the scan pass through, one after each of their
  statements; the list ends where a removal raises.
\<close>

fun move_completed_states :: "ref list \<Rightarrow> orch \<Rightarrow> orch list" where
  "move_completed_states [] st = []"
| "move_completed_states (r # rs) st =
     (case list_remove r (pending st) of
        Inl e \<Rightarrow> []
      | Inr p \<Rightarrow>
          (let s1 = st\<lparr>pending := p\<rparr>;
               s2 = s1\<lparr>completed := insert r (completed s1)\<rparr>
           in s1 # s2 # move_completed_states rs s2))"

fun move_cancelled_states :: "ref list \<Rightarrow> orch \<Rightarrow> orch list" where
  "move_cancelled_states [] st = []"
| "move_cancelled_states (r # rs) st =
     (case list_remove r (pending st) of
        Inl e \<Rightarrow> []
      | Inr p \<Rightarrow>
          (let s1 = st\<lparr>pending := p\<rparr>;
               s2 = s1\<lparr>cancelled := insert r (cancelled s1)\<rparr>
           in case list_remove r (validbuilders s2) of
                Inl e \<Rightarrow> [s1, s2]
              | Inr v \<Rightarrow>
                  (let s3 = s2\<lparr>validbuilders := v, removals := removals s2 @ [r]\<rparr>
                   in s1 # s2 # s3 # move_cancelled_states rs s3)))"

text \<open>
  The states of one iteration: after the sleep, after the scan, and after each statement
  of the two loops that follow; none when the sleep raises.
\<close>

definition poll_iter_states :: "world \<Rightarrow> orch \<Rightarrow> orch list" where
  "poll_iter_states w st =
     (case time_sleep (pollinterval st) st of
        Inl e \<Rightarrow> []
      | Inr st1 \<Rightarrow>
          (case poll_scan w (pending st1) st1 [] [] of
             Inl e \<Rightarrow> [st1]
           | Inr (st2, completed_now, cancelled_now) \<Rightarrow>
               st1 # st2 # move_completed_states completed_now st2
               @ (case move_completed completed_now st2 of
                    Inl e \<Rightarrow> []
                  | Inr st3 \<Rightarrow> move_cancelled_states cancelled_now st3)))"

section \<open>The tracking invariant\<close>

text \<open>
  What holds of the tracking containers between the iterations of the polling loop: no
  reference occurs twice in the pending list or in the valid builders, every pending
  builder is a valid builder, the three tracking containers are pairwise disjoint, no
  cancelled builder is a valid builder, and the cancelled builders are exactly those
  removed from the valid builders, each removed once.
\<close>

definition tracking_inv :: "orch \<Rightarrow> bool" where
  "tracking_inv st \<longleftrightarrow>
     distinct (pending st) \<and> distinct (validbuilders st)
     \<and> set (pending st) \<subseteq> set (validbuilders st)
     \<and> set (pending st) \<inter> completed st = {}
     \<and> set (pending st) \<inter> cancelled st = {}
     \<and> completed st \<inter> cancelled st = {}
     \<and> set (validbuilders st) \<inter> cancelled st = {}
     \<and> distinct (removals st) \<and> set (removals st) = cancelled st"

section \<open>A small site\<close>

text \<open>
  One local executor and one Slurm executor, and four builders: a local one, one whose
  dispatch produces no job, one that the scheduler reports as complete and failed at
  once, and one that the scheduler reports as failed. The result of the local builder
  is ready one round later than the others.
\<close>

definition example_config :: site_config where
  "example_config =
     \<lparr>valid_executors =
        (\<lambda>k. if k = Local then [(''bash'', \<lparr>module = None, before_script = Some ''export X=1''\<rparr>)]
             else if k = Slurm then [(''debug'', \<lparr>module = Some ''gcc'', before_script = None\<rparr>)]
             else []),
      cfg_pollinterval = None,
      numprocs = Some 2\<rparr>"

definition example_world :: world where
  "example_world =
     \<lparr>w_run = (\<lambda>ex i b. Some b),
      w_dispatch = (\<lambda>ex i b. if name b = ''nojob'' then None else Some (b\<lparr>job := Some ''7''\<rparr>)),
      w_poll = (\<lambda>ex t b. if name b = ''stuck'' then b\<lparr>failure := True\<rparr>
                          else b\<lparr>complete := True, failure := (name b = ''both'')\<rparr>),
      w_ready = (\<lambda>r i. i = 0 \<longrightarrow> 1 \<le> r),
      cpu_count = Some 4,
      get_module_commands =
        (\<lambda>m. case m of
               None \<Rightarrow> None
             | Some x \<Rightarrow> Some [''module purge'', ''module load '' @ x, ''module list'']),
      BUILDTEST_EXECUTOR_DIR = ''/var/executors''\<rparr>"

definition example_builders :: "builder list" where
  "example_builders =
     [\<lparr>name = ''hello'', executor = ''bash'', job = None, complete = False, failure = False\<rparr>,
      \<lparr>name = ''nojob'', executor = ''debug'', job = None, complete = False, failure = False\<rparr>,
      \<lparr>name = ''both'', executor = ''debug'', job = None, complete = False, failure = False\<rparr>,
      \<lparr>name = ''stuck'', executor = ''debug'', job = None, complete = False, failure = False\<rparr>]"

definition empty_fs :: filesystem where
  "empty_fs = \<lparr>dirs = {}, files = Map.empty\<rparr>"

text \<open>
  A site with two local executors whose names, \<^verbatim>\<open>x\<close> and \<^verbatim>\<open>x/\<close>, join to the same
  script path.
\<close>

definition collision_config :: site_config where
  "collision_config =
     \<lparr>valid_executors =
        (\<lambda>k. if k = Local
             then [(''x'', \<lparr>module = None, before_script = Some ''FIRST''\<rparr>),
                   (''x/'', \<lparr>module = None, before_script = Some ''SECOND''\<rparr>)]
             else []),
      cfg_pollinterval = None,
      numprocs = None\<rparr>"

text \<open>
  A name that is a single path component of its own: not empty, not \<^verbatim>\<open>.\<close> or \<^verbatim>\<open>..\<close>, and
  without a separator.
\<close>

definition plain_name :: "string \<Rightarrow> bool" where
  "plain_name n \<longleftrightarrow> n \<noteq> [] \<and> n \<noteq> ''.'' \<and> n \<noteq> ''..'' \<and> CHR ''/'' \<notin> set n"

section \<open>One iteration of the polling loop\<close>

subsection \<open>The scan\<close>

lemma list_remove_Inr: "list_remove x xs = Inr ys \<Longrightarrow> x \<in> set xs \<and> ys = remove1 x xs"
  by (auto simp: list_remove_def split: if_splits)

lemma list_remove_Inl:
  "list_remove x xs = Inl e \<Longrightarrow> x \<notin> set xs \<and> e = ValueError not_in_list"
  by (auto simp: list_remove_def split: if_splits)

lemma poll_scan_fields:
  "poll_scan w ps st c x = Inr (st', c', x') \<Longrightarrow> st' = st\<lparr>heap := heap st'\<rparr>"
proof (induction ps arbitrary: st c x)
  case Nil
  then show ?case by simp
next
  case (Cons r rs)
  from Cons.prems obtain ex where ex: "get st (executor (heap st r)) = Some ex"
    by (auto split: option.splits)
  define s1 where "s1 = st\<lparr>heap := (heap st)(r := w_poll w ex (clock st) (heap st r))\<rparr>"
  from Cons.prems ex have "\<exists>c1 x1. poll_scan w rs s1 c1 x1 = Inr (st', c', x')"
    by (auto simp: s1_def Let_def split: if_splits)
  then obtain c1 x1 where "poll_scan w rs s1 c1 x1 = Inr (st', c', x')" by blast
  from Cons.IH[OF this] have "st' = s1\<lparr>heap := heap st'\<rparr>" .
  then show ?case by (simp add: s1_def)
qed

lemma poll_scan_error: "poll_scan w ps st c x = Inl e \<Longrightarrow> e = AttributeError"
  by (induction ps arbitrary: st c x) (auto simp: Let_def split: option.splits if_splits)


lemma poll_scan_Cons:
  assumes "poll_scan w (r # rs) st c x = Inr res"
  obtains ex where "get st (executor (heap st r)) = Some ex"
    and "poll_scan w rs (st\<lparr>heap := (heap st)(r := w_poll w ex (clock st) (heap st r))\<rparr>)
           (if is_complete (w_poll w ex (clock st) (heap st r)) then c @ [r] else c)
           (if \<not> is_complete (w_poll w ex (clock st) (heap st r))
                \<and> is_failure (w_poll w ex (clock st) (heap st r)) then x @ [r] else x) = Inr res"
proof (cases "get st (executor (heap st r))")
  case None
  with assms show ?thesis by simp
next
  case (Some ex)
  with assms have "poll_scan w rs (st\<lparr>heap := (heap st)(r := w_poll w ex (clock st) (heap st r))\<rparr>)
           (if is_complete (w_poll w ex (clock st) (heap st r)) then c @ [r] else c)
           (if \<not> is_complete (w_poll w ex (clock st) (heap st r))
                \<and> is_failure (w_poll w ex (clock st) (heap st r)) then x @ [r] else x) = Inr res"
    by (simp add: Let_def split: if_splits)
  with Some show ?thesis by (rule that)
qed

lemma poll_scan_heap_other:
  "poll_scan w ps st c x = Inr (st', c', x') \<Longrightarrow> r \<notin> set ps \<Longrightarrow> heap st' r = heap st r"
proof (induction ps arbitrary: st c x)
  case Nil
  then show ?case by simp
next
  case (Cons p ps)
  from Cons.prems(2) have np: "r \<noteq> p" and nps: "r \<notin> set ps" by auto
  from Cons.prems(1) obtain ex c1 x1 where
    rec: "poll_scan w ps (st\<lparr>heap := (heap st)(p := w_poll w ex (clock st) (heap st p))\<rparr>) c1 x1
          = Inr (st', c', x')"
    by (rule poll_scan_Cons)
  from Cons.IH[OF rec nps] np show ?case by simp
qed

lemma poll_scan_lists:
  "poll_scan w ps st c x = Inr (st', c', x') \<Longrightarrow> distinct ps \<Longrightarrow>
   \<exists>cs xs. c' = c @ cs \<and> x' = x @ xs \<and> distinct cs \<and> distinct xs
     \<and> set cs = {r \<in> set ps. is_complete (heap st' r)}
     \<and> set xs = {r \<in> set ps. \<not> is_complete (heap st' r) \<and> is_failure (heap st' r)}"
proof (induction ps arbitrary: st c x)
  case Nil
  then show ?case by simp
next
  case (Cons r rs)
  from Cons.prems(2) have d: "distinct rs" and nr: "r \<notin> set rs" by auto
  from Cons.prems(1) obtain ex where
    rec: "poll_scan w rs (st\<lparr>heap := (heap st)(r := w_poll w ex (clock st) (heap st r))\<rparr>)
           (if is_complete (w_poll w ex (clock st) (heap st r)) then c @ [r] else c)
           (if \<not> is_complete (w_poll w ex (clock st) (heap st r))
                \<and> is_failure (w_poll w ex (clock st) (heap st r)) then x @ [r] else x)
          = Inr (st', c', x')"
    by (rule poll_scan_Cons)
  define b where "b = w_poll w ex (clock st) (heap st r)"
  have hr: "heap st' r = b"
    using poll_scan_heap_other[OF rec nr] by (simp add: b_def)
  from Cons.IH[OF rec d] obtain cs xs where
    c': "c' = (if is_complete b then c @ [r] else c) @ cs"
    and x': "x' = (if \<not> is_complete b \<and> is_failure b then x @ [r] else x) @ xs"
    and dc: "distinct cs" and dx: "distinct xs"
    and sc: "set cs = {r \<in> set rs. is_complete (heap st' r)}"
    and sx: "set xs = {r \<in> set rs. \<not> is_complete (heap st' r) \<and> is_failure (heap st' r)}"
    unfolding b_def by blast
  from sc nr have rc: "r \<notin> set cs" by simp
  from sx nr have rx: "r \<notin> set xs" by simp
  define cs' where "cs' = (if is_complete b then r # cs else cs)"
  define xs' where "xs' = (if \<not> is_complete b \<and> is_failure b then r # xs else xs)"
  have 1: "c' = c @ cs'" using c' by (simp add: cs'_def)
  have 2: "x' = x @ xs'" using x' by (simp add: xs'_def)
  have 3: "distinct cs'" using dc rc by (simp add: cs'_def)
  have 4: "distinct xs'" using dx rx by (simp add: xs'_def)
  have 5: "set cs' = {q \<in> set (r # rs). is_complete (heap st' q)}"
    using sc hr by (auto simp: cs'_def)
  have 6: "set xs' = {q \<in> set (r # rs). \<not> is_complete (heap st' q) \<and> is_failure (heap st' q)}"
    using sx hr by (auto simp: xs'_def)
  from 1 2 3 4 5 6 show ?case by blast
qed

lemma subseq_remove1: "subseq (remove1 x xs) xs"
  by (induction xs) auto

subsection \<open>Moving builders out of the pending list\<close>

lemma move_completed_Inr:
  "move_completed rs st = Inr st' \<Longrightarrow>
   st' = st\<lparr>pending := pending st', completed := completed st \<union> set rs\<rparr>
   \<and> subseq (pending st') (pending st)"
proof (induction rs arbitrary: st)
  case Nil
  then show ?case by simp
next
  case (Cons r rs)
  from Cons.prems obtain p where p: "list_remove r (pending st) = Inr p"
    and rec: "move_completed rs (st\<lparr>pending := p, completed := insert r (completed st)\<rparr>) = Inr st'"
    by (auto split: sum.splits)
  from list_remove_Inr[OF p] have pp: "p = remove1 r (pending st)" by simp
  from Cons.IH[OF rec] have
    e: "st' = st\<lparr>pending := p, completed := insert r (completed st)\<rparr>
             \<lparr>pending := pending st', completed := insert r (completed st) \<union> set rs\<rparr>"
    and s: "subseq (pending st') p" by simp_all
  have "subseq p (pending st)" unfolding pp by (rule subseq_remove1)
  with s have "subseq (pending st') (pending st)" by (rule subseq_order.order_trans)
  moreover from e have "st' = st\<lparr>pending := pending st', completed := completed st \<union> set (r # rs)\<rparr>"
    by simp
  ultimately show ?case by simp
qed

lemma move_completed_error: "move_completed rs st = Inl e \<Longrightarrow> e = ValueError not_in_list"
  by (induction rs arbitrary: st) (auto split: sum.splits dest: list_remove_Inl)

lemma move_cancelled_Inr:
  "move_cancelled rs st = Inr st' \<Longrightarrow>
   st' = st\<lparr>pending := pending st', cancelled := cancelled st \<union> set rs,
            validbuilders := validbuilders st', removals := removals st @ rs\<rparr>
   \<and> subseq (pending st') (pending st) \<and> subseq (validbuilders st') (validbuilders st)"
proof (induction rs arbitrary: st)
  case Nil
  then show ?case by simp
next
  case (Cons r rs)
  from Cons.prems obtain p v where p: "list_remove r (pending st) = Inr p"
    and v: "list_remove r (validbuilders st) = Inr v"
    and rec: "move_cancelled rs (st\<lparr>pending := p, cancelled := insert r (cancelled st),
                validbuilders := v, removals := removals st @ [r]\<rparr>) = Inr st'"
    by (auto simp: Let_def split: sum.splits)
  from list_remove_Inr[OF p] have pp: "p = remove1 r (pending st)" by simp
  from list_remove_Inr[OF v] have vv: "v = remove1 r (validbuilders st)" by simp
  from Cons.IH[OF rec] have
    e: "st' = st\<lparr>pending := p, cancelled := insert r (cancelled st),
                validbuilders := v, removals := removals st @ [r]\<rparr>
             \<lparr>pending := pending st', cancelled := insert r (cancelled st) \<union> set rs,
              validbuilders := validbuilders st', removals := (removals st @ [r]) @ rs\<rparr>"
    and s: "subseq (pending st') p" "subseq (validbuilders st') v" by simp_all
  have "subseq p (pending st)" "subseq v (validbuilders st)"
    unfolding pp vv by (rule subseq_remove1)+
  with s have "subseq (pending st') (pending st)" "subseq (validbuilders st') (validbuilders st)"
    by (blast intro: subseq_order.order_trans)+
  moreover from e have "st' = st\<lparr>pending := pending st', cancelled := cancelled st \<union> set (r # rs),
            validbuilders := validbuilders st', removals := removals st @ (r # rs)\<rparr>"
    by simp
  ultimately show ?case by simp
qed

lemma move_cancelled_error: "move_cancelled rs st = Inl e \<Longrightarrow> e = ValueError not_in_list"
  by (induction rs arbitrary: st) (auto simp: Let_def split: sum.splits dest: list_remove_Inl)

lemma pending_rows_error: "pending_rows st rs = Inl e \<Longrightarrow> e = AttributeError"
  by (induction rs) (auto split: option.splits sum.splits)

lemma remove1_filter: "distinct xs \<Longrightarrow> remove1 x xs = filter (\<lambda>y. y \<noteq> x) xs"
  by (simp add: distinct_remove1_removeAll removeAll_filter_not_eq eq_commute)

lemma move_completed_frame:
  assumes "move_completed rs st = Inr st'"
  shows "completed st' = completed st \<union> set rs" and "cancelled st' = cancelled st"
    and "validbuilders st' = validbuilders st" and "removals st' = removals st"
    and "heap st' = heap st" and "subseq (pending st') (pending st)"
proof -
  from move_completed_Inr[OF assms] have
    e: "st' = st\<lparr>pending := pending st', completed := completed st \<union> set rs\<rparr>"
    and s: "subseq (pending st') (pending st)" by simp_all
  show "completed st' = completed st \<union> set rs" by (subst e) simp
  show "cancelled st' = cancelled st" by (subst e) simp
  show "validbuilders st' = validbuilders st" by (subst e) simp
  show "removals st' = removals st" by (subst e) simp
  show "heap st' = heap st" by (subst e) simp
  show "subseq (pending st') (pending st)" by (rule s)
qed

lemma move_completed_members:
  "move_completed rs st = Inr st' \<Longrightarrow> set rs \<subseteq> set (pending st)"
proof (induction rs arbitrary: st)
  case Nil
  then show ?case by simp
next
  case (Cons r rs)
  from Cons.prems obtain p where p: "list_remove r (pending st) = Inr p"
    and rec: "move_completed rs (st\<lparr>pending := p, completed := insert r (completed st)\<rparr>) = Inr st'"
    by (auto split: sum.splits)
  from list_remove_Inr[OF p] have r: "r \<in> set (pending st)" and pp: "p = remove1 r (pending st)"
    by simp_all
  from Cons.IH[OF rec] have "set rs \<subseteq> set p" by simp
  also have "\<dots> \<subseteq> set (pending st)" unfolding pp by (rule set_remove1_subset)
  finally show ?case using r by simp
qed

lemma move_cancelled_frame:
  assumes "move_cancelled rs st = Inr st'"
  shows "cancelled st' = cancelled st \<union> set rs" and "completed st' = completed st"
    and "removals st' = removals st @ rs"
    and "heap st' = heap st" and "subseq (pending st') (pending st)"
    and "subseq (validbuilders st') (validbuilders st)"
proof -
  from move_cancelled_Inr[OF assms] have
    e: "st' = st\<lparr>pending := pending st', cancelled := cancelled st \<union> set rs,
            validbuilders := validbuilders st', removals := removals st @ rs\<rparr>"
    and s: "subseq (pending st') (pending st)" "subseq (validbuilders st') (validbuilders st)"
    by simp_all
  show "cancelled st' = cancelled st \<union> set rs" by (subst e) simp
  show "completed st' = completed st" by (subst e) simp
  show "removals st' = removals st @ rs" by (subst e) simp
  show "heap st' = heap st" by (subst e) simp
  show "subseq (pending st') (pending st)" by (rule s(1))
  show "subseq (validbuilders st') (validbuilders st)" by (rule s(2))
qed

lemma move_cancelled_members:
  "move_cancelled rs st = Inr st' \<Longrightarrow> set rs \<subseteq> set (pending st)"
proof (induction rs arbitrary: st)
  case Nil
  then show ?case by simp
next
  case (Cons r rs)
  from Cons.prems obtain p v where p: "list_remove r (pending st) = Inr p"
    and rec: "move_cancelled rs (st\<lparr>pending := p, cancelled := insert r (cancelled st),
                validbuilders := v, removals := removals st @ [r]\<rparr>) = Inr st'"
    by (auto simp: Let_def split: sum.splits)
  from list_remove_Inr[OF p] have r: "r \<in> set (pending st)" and pp: "p = remove1 r (pending st)"
    by simp_all
  from Cons.IH[OF rec] have "set rs \<subseteq> set p" by simp
  also have "\<dots> \<subseteq> set (pending st)" unfolding pp by (rule set_remove1_subset)
  finally show ?case using r by simp
qed

lemma move_completed_ok:
  "distinct (pending st) \<Longrightarrow> distinct rs \<Longrightarrow> set rs \<subseteq> set (pending st) \<Longrightarrow>
   \<exists>st'. move_completed rs st = Inr st'
     \<and> pending st' = filter (\<lambda>r. r \<notin> set rs) (pending st)"
proof (induction rs arbitrary: st)
  case Nil
  then show ?case by simp
next
  case (Cons r rs)
  let ?s1 = "st\<lparr>pending := remove1 r (pending st), completed := insert r (completed st)\<rparr>"
  from Cons.prems have r: "r \<in> set (pending st)" and nr: "r \<notin> set rs" and d: "distinct rs"
    and sub: "set rs \<subseteq> set (pending st)" by auto
  have p1: "pending ?s1 = filter (\<lambda>y. y \<noteq> r) (pending st)"
    using Cons.prems(1) by (simp add: remove1_filter)
  have "distinct (pending ?s1)" using Cons.prems(1) by simp
  moreover have "set rs \<subseteq> set (pending ?s1)" using sub nr unfolding p1 by auto
  ultimately obtain st' where m: "move_completed rs ?s1 = Inr st'"
    and p: "pending st' = filter (\<lambda>q. q \<notin> set rs) (pending ?s1)"
    using Cons.IH[OF _ d] by blast
  have "move_completed (r # rs) st = Inr st'" using r m by (simp add: list_remove_def)
  moreover have "pending st' = filter (\<lambda>q. q \<notin> set (r # rs)) (pending st)"
    unfolding p p1 by (auto intro: filter_cong)
  ultimately show ?case by blast
qed

lemma move_cancelled_ok:
  "distinct (pending st) \<Longrightarrow> distinct (validbuilders st) \<Longrightarrow> distinct rs \<Longrightarrow>
   set rs \<subseteq> set (pending st) \<Longrightarrow> set rs \<subseteq> set (validbuilders st) \<Longrightarrow>
   \<exists>st'. move_cancelled rs st = Inr st'
     \<and> pending st' = filter (\<lambda>r. r \<notin> set rs) (pending st)
     \<and> validbuilders st' = filter (\<lambda>r. r \<notin> set rs) (validbuilders st)"
proof (induction rs arbitrary: st)
  case Nil
  then show ?case by simp
next
  case (Cons r rs)
  let ?s1 = "st\<lparr>pending := remove1 r (pending st), cancelled := insert r (cancelled st),
               validbuilders := remove1 r (validbuilders st), removals := removals st @ [r]\<rparr>"
  from Cons.prems have r: "r \<in> set (pending st)" "r \<in> set (validbuilders st)"
    and nr: "r \<notin> set rs" and d: "distinct rs"
    and sub: "set rs \<subseteq> set (pending st)" "set rs \<subseteq> set (validbuilders st)" by auto
  have p1: "pending ?s1 = filter (\<lambda>y. y \<noteq> r) (pending st)"
    using Cons.prems(1) by (simp add: remove1_filter)
  have v1: "validbuilders ?s1 = filter (\<lambda>y. y \<noteq> r) (validbuilders st)"
    using Cons.prems(2) by (simp add: remove1_filter)
  have "distinct (pending ?s1)" "distinct (validbuilders ?s1)" using Cons.prems(1,2) by simp_all
  moreover have "set rs \<subseteq> set (pending ?s1)" using sub nr unfolding p1 by auto
  moreover have "set rs \<subseteq> set (validbuilders ?s1)" using sub nr unfolding v1 by auto
  ultimately obtain st' where m: "move_cancelled rs ?s1 = Inr st'"
    and p: "pending st' = filter (\<lambda>q. q \<notin> set rs) (pending ?s1)"
    and v: "validbuilders st' = filter (\<lambda>q. q \<notin> set rs) (validbuilders ?s1)"
    using Cons.IH[OF _ _ d] by blast
  have "move_cancelled (r # rs) st = Inr st'" using r m by (simp add: list_remove_def Let_def)
  moreover have "pending st' = filter (\<lambda>q. q \<notin> set (r # rs)) (pending st)"
    unfolding p p1 by (auto intro: filter_cong)
  moreover have "validbuilders st' = filter (\<lambda>q. q \<notin> set (r # rs)) (validbuilders st)"
    unfolding v v1 by (auto intro: filter_cong)
  ultimately show ?case by blast
qed

subsection \<open>The iteration preserves the invariant\<close>

lemma messages_distinct:
  "not_in_list \<noteq> negative_sleep" "negative_sleep \<noteq> not_in_list"
  "not_in_list \<noteq> no_processes" "no_processes \<noteq> not_in_list"
  by (simp_all add: not_in_list_def negative_sleep_def no_processes_def)

lemma poll_iter_neg:
  "pollinterval st < 0 \<Longrightarrow> poll_iter w st = Inl (ValueError negative_sleep)"
  by (simp add: poll_iter_def time_sleep_def)

lemma poll_iter_nonneg:
  "0 \<le> pollinterval st \<Longrightarrow>
   poll_iter w st =
     (case poll_scan w (pending st) (st\<lparr>clock := clock st + pollinterval st\<rparr>) [] [] of
        Inl e \<Rightarrow> Inl e
      | Inr (st2, completed_now, cancelled_now) \<Rightarrow>
          (case move_completed completed_now st2 of
             Inl e \<Rightarrow> Inl e
           | Inr st3 \<Rightarrow>
               (case move_cancelled cancelled_now st3 of
                  Inl e \<Rightarrow> Inl e
                | Inr st4 \<Rightarrow>
                    (case print_pending_jobs st4 of
                       Inl e \<Rightarrow> Inl e
                     | Inr rows \<Rightarrow> Inr st4))))"
  by (simp add: poll_iter_def time_sleep_def)

lemma poll_iter_Inr_nonneg: "poll_iter w st = Inr st' \<Longrightarrow> 0 \<le> pollinterval st"
  by (rule ccontr) (simp add: poll_iter_neg)

lemma poll_iter_Inr:
  assumes "poll_iter w st = Inr st'"
  obtains st2 c x st3 where
    "poll_scan w (pending st) (st\<lparr>clock := clock st + pollinterval st\<rparr>) [] [] = Inr (st2, c, x)"
    and "move_completed c st2 = Inr st3" and "move_cancelled x st3 = Inr st'"
  using assms unfolding poll_iter_nonneg[OF poll_iter_Inr_nonneg[OF assms]]
  by (auto split: sum.splits prod.splits)

lemma poll_scan_frame:
  assumes "poll_scan w ps st c x = Inr (st', c', x')"
  shows "pending st' = pending st" and "completed st' = completed st"
    and "cancelled st' = cancelled st" and "validbuilders st' = validbuilders st"
    and "removals st' = removals st"
proof -
  from poll_scan_fields[OF assms] have e: "st' = st\<lparr>heap := heap st'\<rparr>" .
  show "pending st' = pending st" by (subst e) simp
  show "completed st' = completed st" by (subst e) simp
  show "cancelled st' = cancelled st" by (subst e) simp
  show "validbuilders st' = validbuilders st" by (subst e) simp
  show "removals st' = removals st" by (subst e) simp
qed

lemma subseq_set: "subseq xs ys \<Longrightarrow> set xs \<subseteq> set ys"
  by (auto dest: list_emb_set)

lemma poll_iter_moves:
  assumes "poll_iter w st = Inr st'"
  shows "subseq (pending st') (pending st)"
    and "subseq (validbuilders st') (validbuilders st)"
    and "completed st \<subseteq> completed st'" and "cancelled st \<subseteq> cancelled st'"
    and "completed st' \<subseteq> completed st \<union> set (pending st)"
    and "cancelled st' \<subseteq> cancelled st \<union> set (pending st)"
proof -
  from assms obtain st2 c x st3 where
    sc: "poll_scan w (pending st) (st\<lparr>clock := clock st + pollinterval st\<rparr>) [] [] = Inr (st2, c, x)"
    and mc: "move_completed c st2 = Inr st3" and mx: "move_cancelled x st3 = Inr st'"
    by (rule poll_iter_Inr)
  note f2 = poll_scan_frame[OF sc]
  note f3 = move_completed_frame[OF mc]
  note f4 = move_cancelled_frame[OF mx]
  have p32: "subseq (pending st3) (pending st)" using f3(6) f2(1) by simp
  show "subseq (pending st') (pending st)"
    using f4(5) p32 by (rule subseq_order.order_trans)
  show "subseq (validbuilders st') (validbuilders st)" using f4(6) f3(3) f2(4) by simp
  show "completed st \<subseteq> completed st'" using f4(2) f3(1) f2(2) by auto
  show "cancelled st \<subseteq> cancelled st'" using f4(1) f3(2) f2(3) by auto
  have "set c \<subseteq> set (pending st)" using move_completed_members[OF mc] f2(1) by simp
  then show "completed st' \<subseteq> completed st \<union> set (pending st)" using f4(2) f3(1) f2(2) by auto
  have "set x \<subseteq> set (pending st3)" using move_cancelled_members[OF mx] .
  also have "\<dots> \<subseteq> set (pending st)" using p32 by (rule subseq_set)
  finally show "cancelled st' \<subseteq> cancelled st \<union> set (pending st)" using f4(1) f3(2) f2(3) by auto
qed

lemma poll_iter_error:
  "poll_iter w st = Inl e \<Longrightarrow>
   e = AttributeError \<or> e = ValueError not_in_list \<or> e = ValueError negative_sleep"
proof (cases "pollinterval st < 0")
  case True
  then show "poll_iter w st = Inl e \<Longrightarrow> ?thesis" by (simp add: poll_iter_neg)
next
  case False
  then have n: "0 \<le> pollinterval st" by simp
  show "poll_iter w st = Inl e \<Longrightarrow> ?thesis"
    unfolding poll_iter_nonneg[OF n] print_pending_jobs_def
    by (auto split: sum.splits prod.splits
        dest: poll_scan_error move_completed_error move_cancelled_error pending_rows_error)
qed

text \<open>The shape of one iteration from a state that satisfies the invariant.\<close>

lemma poll_iter_shape:
  assumes inv: "tracking_inv st"
    and sc: "poll_scan w (pending st) (st\<lparr>clock := clock st + pollinterval st\<rparr>) [] [] = Inr (st2, c, x)"
  shows "\<exists>st3 st4. move_completed c st2 = Inr st3 \<and> move_cancelled x st3 = Inr st4
     \<and> distinct c \<and> distinct x
     \<and> set c = {r \<in> set (pending st). is_complete (heap st2 r)}
     \<and> set x = {r \<in> set (pending st). \<not> is_complete (heap st2 r) \<and> is_failure (heap st2 r)}
     \<and> pending st4 = filter (\<lambda>r. r \<notin> set c \<and> r \<notin> set x) (pending st)
     \<and> validbuilders st4 = filter (\<lambda>r. r \<notin> set x) (validbuilders st)
     \<and> completed st4 = completed st \<union> set c
     \<and> cancelled st4 = cancelled st \<union> set x
     \<and> removals st4 = removals st @ x
     \<and> heap st4 = heap st2"
proof -
  from inv have dp: "distinct (pending st)" and dv: "distinct (validbuilders st)"
    and pv: "set (pending st) \<subseteq> set (validbuilders st)"
    by (simp_all add: tracking_inv_def)
  note f2 = poll_scan_frame[OF sc]
  have f2': "pending st2 = pending st" "completed st2 = completed st"
    "cancelled st2 = cancelled st" "validbuilders st2 = validbuilders st"
    "removals st2 = removals st" using f2 by simp_all
  from poll_scan_lists[OF sc] dp have
    dc: "distinct c" and dx: "distinct x"
    and sc': "set c = {r \<in> set (pending st). is_complete (heap st2 r)}"
    and sx': "set x = {r \<in> set (pending st). \<not> is_complete (heap st2 r) \<and> is_failure (heap st2 r)}"
    by auto
  have cx: "set c \<inter> set x = {}" using sc' sx' by auto
  have "set c \<subseteq> set (pending st2)" using sc' f2'(1) by auto
  with dp dc f2'(1) obtain st3 where mc: "move_completed c st2 = Inr st3"
    and p3: "pending st3 = filter (\<lambda>r. r \<notin> set c) (pending st)"
    using move_completed_ok[of st2 c] by auto
  note f3 = move_completed_frame[OF mc]
  have "distinct (pending st3)" using dp p3 by simp
  moreover have "distinct (validbuilders st3)" using dv f3(3) f2'(4) by simp
  moreover have "set x \<subseteq> set (pending st3)" using sx' cx p3 by auto
  moreover have "set x \<subseteq> set (validbuilders st3)" using sx' pv f3(3) f2'(4) by auto
  ultimately obtain st4 where mx: "move_cancelled x st3 = Inr st4"
    and p4: "pending st4 = filter (\<lambda>r. r \<notin> set x) (pending st3)"
    and v4: "validbuilders st4 = filter (\<lambda>r. r \<notin> set x) (validbuilders st3)"
    using move_cancelled_ok[OF _ _ dx, of st3] by blast
  note f4 = move_cancelled_frame[OF mx]
  have "pending st4 = filter (\<lambda>r. r \<notin> set c \<and> r \<notin> set x) (pending st)"
    unfolding p4 p3 by (auto intro: filter_cong)
  moreover have "validbuilders st4 = filter (\<lambda>r. r \<notin> set x) (validbuilders st)"
    unfolding v4 f3(3) f2'(4) ..
  moreover have "completed st4 = completed st \<union> set c" using f4(2) f3(1) f2'(2) by simp
  moreover have "cancelled st4 = cancelled st \<union> set x" using f4(1) f3(2) f2'(3) by simp
  moreover have "removals st4 = removals st @ x" using f4(3) f3(4) f2'(5) by simp
  moreover have "heap st4 = heap st2" using f4(4) f3(5) by simp
  ultimately show ?thesis using mc mx dc dx sc' sx' by blast
qed

lemma poll_iter_no_ValueError:
  assumes inv: "tracking_inv st"
  shows "poll_iter w st \<noteq> Inl (ValueError not_in_list)"
proof (cases "pollinterval st < 0")
  case True
  then show ?thesis by (simp add: poll_iter_neg messages_distinct)
next
  case False
  then have n: "0 \<le> pollinterval st" by simp
  show ?thesis
  proof (cases "poll_scan w (pending st) (st\<lparr>clock := clock st + pollinterval st\<rparr>) [] []")
    case (Inl e)
    then have "e = AttributeError" by (rule poll_scan_error)
    with Inl show ?thesis by (simp add: poll_iter_nonneg[OF n])
  next
    case (Inr res)
    obtain st2 c x where res: "res = (st2, c, x)" by (cases res) auto
    from poll_iter_shape[OF inv Inr[unfolded res]] obtain st3 st4 where
      "move_completed c st2 = Inr st3" "move_cancelled x st3 = Inr st4" by blast
    with Inr res show ?thesis
      unfolding poll_iter_nonneg[OF n] print_pending_jobs_def
      by (auto split: sum.splits dest: pending_rows_error)
  qed
qed

lemma poll_iter_inv:
  assumes inv: "tracking_inv st" and it: "poll_iter w st = Inr st'"
  shows "tracking_inv st'"
proof -
  from it obtain st2 c x st3 where
    sc: "poll_scan w (pending st) (st\<lparr>clock := clock st + pollinterval st\<rparr>) [] [] = Inr (st2, c, x)"
    and mc: "move_completed c st2 = Inr st3" and mx: "move_cancelled x st3 = Inr st'"
    by (rule poll_iter_Inr)
  from poll_iter_shape[OF inv sc] mc mx have
    sc': "set c \<subseteq> set (pending st)" and sx': "set x \<subseteq> set (pending st)"
    and cx: "set c \<inter> set x = {}" and dx: "distinct x"
    and p: "pending st' = filter (\<lambda>r. r \<notin> set c \<and> r \<notin> set x) (pending st)"
    and v: "validbuilders st' = filter (\<lambda>r. r \<notin> set x) (validbuilders st)"
    and co: "completed st' = completed st \<union> set c"
    and ca: "cancelled st' = cancelled st \<union> set x"
    and re: "removals st' = removals st @ x"
    by auto
  from inv have i: "distinct (pending st)" "distinct (validbuilders st)"
    "set (pending st) \<subseteq> set (validbuilders st)"
    "set (pending st) \<inter> completed st = {}"
    "set (pending st) \<inter> cancelled st = {}"
    "completed st \<inter> cancelled st = {}"
    "set (validbuilders st) \<inter> cancelled st = {}"
    "distinct (removals st)" "set (removals st) = cancelled st"
    by (simp_all add: tracking_inv_def)
  have 1: "distinct (pending st')" using i(1) p by simp
  have 2: "distinct (validbuilders st')" using i(2) v by simp
  have 3: "set (pending st') \<subseteq> set (validbuilders st')" using i(3) p v by auto
  have 4: "set (pending st') \<inter> completed st' = {}" using i(4) p co by auto
  have 5: "set (pending st') \<inter> cancelled st' = {}" using i(5) p ca by auto
  have 6: "completed st' \<inter> cancelled st' = {}" using i(4,5,6) co ca sc' sx' cx by auto
  have 7: "set (validbuilders st') \<inter> cancelled st' = {}" using i(7) v ca by auto
  have 8: "distinct (removals st')" using i(8,9,5) re dx sx' by auto
  have 9: "set (removals st') = cancelled st'" using i(9) re ca by auto
  from 1 2 3 4 5 6 7 8 9 show ?thesis by (simp add: tracking_inv_def)
qed

section \<open>The collection loop\<close>

lemma scan_results_frame:
  "scan_results w r rs st ready = (st', ready') \<Longrightarrow>
   pending st' = pending st \<and> completed st' = completed st \<and> cancelled st' = cancelled st
   \<and> removals st' = removals st \<and> nxt st' = nxt st \<and> builders st' = builders st
   \<and> executors st' = executors st"
proof (induction rs arbitrary: st ready)
  case Nil
  then show ?case by simp
next
  case (Cons a rs)
  obtain i task where a: "a = (i, task)" by (cases a)
  show ?case
  proof (cases "w_ready w r i")
    case False
    with Cons.prems a have "scan_results w r rs st ready = (st', ready')" by simp
    from Cons.IH[OF this] show ?thesis .
  next
    case True
    show ?thesis
    proof (cases task)
      case None
      with True Cons.prems a have "scan_results w r rs st (ready @ [(i, None)]) = (st', ready')"
        by simp
      from Cons.IH[OF this] show ?thesis .
    next
      case (Some b)
      with True Cons.prems a have
        "scan_results w r rs (st\<lparr>validbuilders := validbuilders st @ [nxt st + i],
             heap := (heap st)(nxt st + i := b)\<rparr>) (ready @ [(i, Some b)]) = (st', ready')"
        by simp
      from Cons.IH[OF this] show ?thesis by simp
    qed
  qed
qed

lemma scan_results_result:
  "scan_results w r rs st ready = (st', ready') \<Longrightarrow>
   ready' = ready @ filter (\<lambda>x. w_ready w r (fst x)) rs
   \<and> validbuilders st' = validbuilders st
        @ map (\<lambda>x. nxt st + fst x) (filter (\<lambda>x. w_ready w r (fst x) \<and> snd x \<noteq> None) rs)"
proof (induction rs arbitrary: st ready)
  case Nil
  then show ?case by simp
next
  case (Cons a rs)
  obtain i task where a: "a = (i, task)" by (cases a)
  show ?case
  proof (cases "w_ready w r i")
    case False
    with Cons.prems a have "scan_results w r rs st ready = (st', ready')" by simp
    from Cons.IH[OF this] False a show ?thesis by simp
  next
    case True
    show ?thesis
    proof (cases task)
      case None
      with True Cons.prems a have "scan_results w r rs st (ready @ [(i, None)]) = (st', ready')"
        by simp
      from Cons.IH[OF this] True None a show ?thesis by simp
    next
      case (Some b)
      with True Cons.prems a have
        "scan_results w r rs (st\<lparr>validbuilders := validbuilders st @ [nxt st + i],
             heap := (heap st)(nxt st + i := b)\<rparr>) (ready @ [(i, Some b)]) = (st', ready')"
        by simp
      from Cons.IH[OF this] True Some a show ?thesis by simp
    qed
  qed
qed

lemma fold_remove1_filter:
  "distinct xs \<Longrightarrow> fold remove1 ys xs = filter (\<lambda>x. x \<notin> set ys) xs"
proof (induction ys arbitrary: xs)
  case Nil
  then show ?case by simp
next
  case (Cons y ys)
  have "fold remove1 (y # ys) xs = fold remove1 ys (remove1 y xs)" by simp
  also have "\<dots> = filter (\<lambda>x. x \<notin> set ys) (remove1 y xs)"
    using Cons.prems by (intro Cons.IH) simp
  also have "\<dots> = filter (\<lambda>x. x \<notin> set (y # ys)) xs"
    using Cons.prems by (auto simp: remove1_filter intro: filter_cong)
  finally show ?case .
qed

text \<open>What the collection loop appends to the valid builders.\<close>

lemma collect_result:
  "collect fuel w r rs st = Some st' \<Longrightarrow> distinct (map fst rs) \<Longrightarrow>
   pending st' = pending st \<and> completed st' = completed st \<and> cancelled st' = cancelled st
   \<and> removals st' = removals st \<and> nxt st' = nxt st \<and> builders st' = builders st
   \<and> executors st' = executors st
   \<and> (\<exists>new. validbuilders st' = validbuilders st @ new \<and> distinct new
        \<and> set new = {nxt st + fst x |x. x \<in> set rs \<and> snd x \<noteq> None})"
proof (induction fuel arbitrary: r rs st)
  case 0
  then show ?case by (auto split: if_splits)
next
  case (Suc fuel)
  show ?case
  proof (cases "rs = []")
    case True
    with Suc.prems show ?thesis by simp
  next
    case False
    obtain st1 ready where sr: "scan_results w r rs st [] = (st1, ready)"
      by (cases "scan_results w r rs st []")
    from Suc.prems(2) have drs: "distinct rs" by (simp add: distinct_map)
    from scan_results_result[OF sr] have
      ready: "ready = filter (\<lambda>x. w_ready w r (fst x)) rs"
      and v1: "validbuilders st1 = validbuilders st
        @ map (\<lambda>x. nxt st + fst x) (filter (\<lambda>x. w_ready w r (fst x) \<and> snd x \<noteq> None) rs)"
      by simp_all
    note f1 = scan_results_frame[OF sr]
    define rest where "rest = filter (\<lambda>x. \<not> w_ready w r (fst x)) rs"
    have rest: "fold remove1 ready rs = rest"
      unfolding rest_def fold_remove1_filter[OF drs] ready by (auto intro: filter_cong)
    from Suc.prems(1) False sr rest have rec: "collect fuel w (Suc r) rest st1 = Some st'"
      by simp
    have drest: "distinct (map fst rest)"
      unfolding rest_def using Suc.prems(2) by (rule distinct_map_filter)
    from Suc.IH[OF rec drest] obtain new2 where
      fr: "pending st' = pending st1" "completed st' = completed st1"
          "cancelled st' = cancelled st1" "removals st' = removals st1" "nxt st' = nxt st1"
          "builders st' = builders st1" "executors st' = executors st1"
      and v2: "validbuilders st' = validbuilders st1 @ new2" and d2: "distinct new2"
      and s2: "set new2 = {nxt st1 + fst x |x. x \<in> set rest \<and> snd x \<noteq> None}"
      by blast
    define new1 where
      "new1 = map (\<lambda>x. nxt st + fst x) (filter (\<lambda>x. w_ready w r (fst x) \<and> snd x \<noteq> None) rs)"
    have inj: "inj_on (\<lambda>x. nxt st + fst x) (set rs)"
      using Suc.prems(2) by (auto simp: inj_on_def distinct_map)
    have d1: "distinct new1" unfolding new1_def
      using drs inj by (auto simp: distinct_map intro: inj_on_subset)
    have s1: "set new1 = {nxt st + fst x |x. x \<in> set rs \<and> w_ready w r (fst x) \<and> snd x \<noteq> None}"
      unfolding new1_def set_map set_filter image_Collect by blast
    have s2': "set new2 = {nxt st + fst x |x. x \<in> set rs \<and> \<not> w_ready w r (fst x) \<and> snd x \<noteq> None}"
      unfolding s2 rest_def using f1 by auto
    have disj: "set new1 \<inter> set new2 = {}"
    proof -
      { fix x y assume "x \<in> set rs" "y \<in> set rs" "nxt st + fst x = nxt st + fst y"
          "w_ready w r (fst x)" "\<not> w_ready w r (fst y)"
        then have False by auto }
      then show ?thesis unfolding s1 s2' by blast
    qed
    have "validbuilders st' = validbuilders st @ (new1 @ new2)"
      using v2 v1 by (simp add: new1_def)
    moreover have "distinct (new1 @ new2)" using d1 d2 disj by simp
    moreover have "set (new1 @ new2) = {nxt st + fst x |x. x \<in> set rs \<and> snd x \<noteq> None}"
      unfolding set_append s1 s2' by blast
    ultimately have "\<exists>new. validbuilders st' = validbuilders st @ new \<and> distinct new
        \<and> set new = {nxt st + fst x |x. x \<in> set rs \<and> snd x \<noteq> None}" by blast
    with fr f1 show ?thesis by simp
  qed
qed

section \<open>Registration, submission and iterated polling\<close>

lemma choose_executor_error: "choose_executor st b = Inl e \<Longrightarrow> e = ExecutorError"
  by (auto simp: choose_executor_def split: option.splits)

lemma choose_executor_Inr: "choose_executor st b = Inr ex \<longleftrightarrow> get st (executor b) = Some ex"
  by (auto simp: choose_executor_def split: option.splits)

lemma register_builders_frame:
  "register_builders bs st = Inr st' \<Longrightarrow>
   builders st' = builders st @ bs \<and> pending st' = pending st \<and> completed st' = completed st
   \<and> cancelled st' = cancelled st \<and> validbuilders st' = validbuilders st
   \<and> removals st' = removals st \<and> nxt st' = nxt st \<and> configuration st' = configuration st"
proof (induction bs arbitrary: st)
  case Nil
  then show ?case by simp
next
  case (Cons b bs)
  from Cons.prems obtain ex where
    rec: "register_builders bs
            (st\<lparr>builders := builders st @ [b],
                executors := AList.update (executor b) (add_builder b ex) (executors st)\<rparr>) = Inr st'"
    by (auto split: sum.splits)
  from Cons.IH[OF rec] show ?case by simp
qed

lemma register_builders_unknown:
  "b \<in> set bs \<Longrightarrow> get st (executor b) = None \<Longrightarrow> register_builders bs st = Inl ExecutorError"
proof (induction bs arbitrary: st)
  case Nil
  then show ?case by simp
next
  case (Cons a bs)
  show ?case
  proof (cases "get st (executor a)")
    case None
    then show ?thesis by (simp add: choose_executor_def)
  next
    case (Some ex)
    let ?st1 = "st\<lparr>builders := builders st @ [a],
                executors := AList.update (executor a) (add_builder a ex) (executors st)\<rparr>"
    from Some Cons.prems(2) have ne: "executor a \<noteq> executor b" by auto
    with Cons.prems(1) have bin: "b \<in> set bs" by auto
    have "get ?st1 (executor b) = None"
      using Cons.prems(2) ne by (simp add: get_def update_conv')
    from Cons.IH[OF bin this] Some show ?thesis by (simp add: choose_executor_def)
  qed
qed

lemma submit_fst: "submit w st i bs = Inr rs \<Longrightarrow> map fst rs = [i..<i + length bs]"
proof (induction bs arbitrary: i rs)
  case Nil
  then show ?case by simp
next
  case (Cons b bs)
  from Cons.prems obtain ex rs' where rec: "submit w st (Suc i) bs = Inr rs'"
    and rs: "rs = (i, if e_type ex = Local then w_run w ex i b else w_dispatch w ex i b) # rs'"
    by (auto split: sum.splits)
  from Cons.IH[OF rec] have "map fst rs' = [Suc i..<Suc i + length bs]" .
  moreover have "[i..<i + length (b # bs)] = i # [Suc i..<Suc i + length bs]"
    by (subst upt_rec) simp
  ultimately show ?case unfolding rs by simp
qed

lemma submit_nth:
  "submit w st i bs = Inr rs \<Longrightarrow> k < length bs \<Longrightarrow> choose_executor st (bs ! k) = Inr ex \<Longrightarrow>
   rs ! k = (i + k, if e_type ex = Local then w_run w ex (i + k) (bs ! k)
                    else w_dispatch w ex (i + k) (bs ! k))"
proof (induction bs arbitrary: i rs k)
  case Nil
  then show ?case by simp
next
  case (Cons b bs)
  from Cons.prems(1) obtain ex0 rs' where ex0: "choose_executor st b = Inr ex0"
    and rec: "submit w st (Suc i) bs = Inr rs'"
    and rs: "rs = (i, if e_type ex0 = Local then w_run w ex0 i b else w_dispatch w ex0 i b) # rs'"
    by (auto split: sum.splits)
  show ?case
  proof (cases k)
    case 0
    with Cons.prems(3) ex0 have "ex0 = ex" by simp
    with 0 rs show ?thesis by simp
  next
    case (Suc k')
    with Cons.prems have "k' < length bs" "choose_executor st (bs ! k') = Inr ex" by simp_all
    from Cons.IH[OF rec this] Suc rs show ?thesis by simp
  qed
qed

lemma poll_iters_inv:
  "tracking_inv st \<Longrightarrow> poll_iters n w st = Inr st' \<Longrightarrow> tracking_inv st'"
proof (induction n arbitrary: st)
  case 0
  then show ?case by simp
next
  case (Suc n)
  show ?case
  proof (cases "pending st = []")
    case True
    with Suc.prems show ?thesis by simp
  next
    case False
    with Suc.prems(2) obtain s where s: "poll_iter w st = Inr s" and r: "poll_iters n w s = Inr st'"
      by (auto split: sum.splits)
    from poll_iter_inv[OF Suc.prems(1) s] r show ?thesis by (rule Suc.IH)
  qed
qed

lemma poll_iters_no_ValueError:
  "tracking_inv st \<Longrightarrow> poll_iters n w st \<noteq> Inl (ValueError not_in_list)"
proof (induction n arbitrary: st)
  case 0
  then show ?case by simp
next
  case (Suc n)
  show ?case
  proof (cases "pending st = []")
    case True
    then show ?thesis by simp
  next
    case False
    show ?thesis
    proof (cases "poll_iter w st")
      case (Inl e)
      with poll_iter_no_ValueError[OF Suc.prems, of w] False show ?thesis by auto
    next
      case (Inr s)
      from poll_iter_inv[OF Suc.prems Inr] have "poll_iters n w s \<noteq> Inl (ValueError not_in_list)"
        by (rule Suc.IH)
      with Inr False show ?thesis by simp
    qed
  qed
qed

lemma poll_iters_moves:
  "poll_iters n w st = Inr st' \<Longrightarrow>
   subseq (pending st') (pending st) \<and> subseq (validbuilders st') (validbuilders st)
   \<and> completed st \<subseteq> completed st' \<and> cancelled st \<subseteq> cancelled st'
   \<and> completed st' \<subseteq> completed st \<union> set (pending st)
   \<and> cancelled st' \<subseteq> cancelled st \<union> set (pending st)"
proof (induction n arbitrary: st)
  case 0
  then show ?case by simp
next
  case (Suc n)
  show ?case
  proof (cases "pending st = []")
    case True
    with Suc.prems show ?thesis by simp
  next
    case False
    with Suc.prems obtain s where s: "poll_iter w st = Inr s" and r: "poll_iters n w s = Inr st'"
      by (auto split: sum.splits)
    note a = poll_iter_moves[OF s]
    from Suc.IH[OF r] have b: "subseq (pending st') (pending s)"
      "subseq (validbuilders st') (validbuilders s)"
      "completed s \<subseteq> completed st'" "cancelled s \<subseteq> cancelled st'"
      "completed st' \<subseteq> completed s \<union> set (pending s)"
      "cancelled st' \<subseteq> cancelled s \<union> set (pending s)" by simp_all
    have ps: "set (pending s) \<subseteq> set (pending st)" using a(1) by (rule subseq_set)
    have 1: "subseq (pending st') (pending st)" using b(1) a(1) by (rule subseq_order.order_trans)
    have 2: "subseq (validbuilders st') (validbuilders st)"
      using b(2) a(2) by (rule subseq_order.order_trans)
    have 3: "completed st \<subseteq> completed st'" using a(3) b(3) by blast
    have 4: "cancelled st \<subseteq> cancelled st'" using a(4) b(4) by blast
    have 5: "completed st' \<subseteq> completed st \<union> set (pending st)" using b(5) a(5) ps by blast
    have 6: "cancelled st' \<subseteq> cancelled st \<union> set (pending st)" using b(6) a(6) ps by blast
    from 1 2 3 4 5 6 show ?thesis by simp
  qed
qed

lemma poll_Inr_iters:
  "poll fuel w st = Some (Inr (st', rep)) \<Longrightarrow>
   poll_iters fuel w st = Inr st' \<and> pending st' = [] \<and> rep = cancelled_report st'"
proof (induction fuel arbitrary: st)
  case 0
  then show ?case by (auto split: if_splits)
next
  case (Suc fuel)
  show ?case
  proof (cases "pending st = []")
    case True
    with Suc.prems show ?thesis by auto
  next
    case False
    with Suc.prems obtain s where s: "poll_iter w st = Inr s"
      and r: "poll fuel w s = Some (Inr (st', rep))"
      by (auto split: sum.splits)
    from Suc.IH[OF r] s False show ?thesis by simp
  qed
qed

lemma poll_Inl_iters:
  "poll fuel w st = Some (Inl e) \<Longrightarrow> poll_iters fuel w st = Inl e"
proof (induction fuel arbitrary: st)
  case 0
  then show ?case by (auto split: if_splits)
next
  case (Suc fuel)
  show ?case
  proof (cases "pending st = []")
    case True
    with Suc.prems show ?thesis by auto
  next
    case False
    show ?thesis
    proof (cases "poll_iter w st")
      case (Inl e')
      with Suc.prems False show ?thesis by simp
    next
      case (Inr s)
      with Suc.prems False have "poll fuel w s = Some (Inl e)" by simp
      from Suc.IH[OF this] Inr False show ?thesis by simp
    qed
  qed
qed

section \<open>Evaluating the small site\<close>

lemmas example_simps = example_world_def example_config_def example_builders_def
  empty_fs_def init_def init_fields_def init_kind_def new_executor_def run_def
  choose_executor_def get_def add_builder_def num_workers_def py_or_def py_min_def
  partition_pending_def is_batch_job_def is_complete_def is_failure_def Let_def
  poll_iter_def time_sleep_def Pool_def list_remove_def print_pending_jobs_def cancelled_report_def

section \<open>A run from a new orchestrator\<close>

lemma fst_init: "fst (init w cfg account maxpendtime pi fs) = init_fields cfg account maxpendtime pi"
  by (simp add: init_def Let_def)

lemma init_fields_fresh:
  "builders (init_fields cfg account maxpendtime pi) = []"
  "pending (init_fields cfg account maxpendtime pi) = []"
  "validbuilders (init_fields cfg account maxpendtime pi) = []"
  "completed (init_fields cfg account maxpendtime pi) = {}"
  "cancelled (init_fields cfg account maxpendtime pi) = {}"
  "removals (init_fields cfg account maxpendtime pi) = []"
  "nxt (init_fields cfg account maxpendtime pi) = 0"
  by (simp_all add: init_fields_def Let_def)

lemma run_Inr:
  assumes "run fuel w bs st = Some (Inr st0)"
  obtains st1 rs st2 where "register_builders bs st = Inr st1"
    and "submit w st1 0 (builders st1) = Inr rs"
    and "collect fuel w 0 rs st1 = Some st2"
    and "st0 = partition_pending (st2\<lparr>nxt := nxt st2 + length (builders st1)\<rparr>)"
  using assms unfolding run_def
  by (auto split: sum.splits option.splits)

text \<open>The state that \<^verbatim>\<open>run\<close> leaves when it starts from a new orchestrator.\<close>

lemma run_init_result:
  assumes run: "run fuel w bs (init_fields cfg account maxpendtime pi) = Some (Inr st0)"
  obtains st1 rs where
    "register_builders bs (init_fields cfg account maxpendtime pi) = Inr st1"
    and "submit w st1 0 bs = Inr rs"
    and "distinct (validbuilders st0)"
    and "set (validbuilders st0) = {fst x |x. x \<in> set rs \<and> snd x \<noteq> None}"
    and "pending st0 = filter (\<lambda>r. is_batch_job (heap st0 r)) (validbuilders st0)"
    and "completed st0 = {}" and "cancelled st0 = {}" and "removals st0 = []"
proof -
  let ?st = "init_fields cfg account maxpendtime pi"
  from run obtain st1 rs st2 where reg: "register_builders bs ?st = Inr st1"
    and sub: "submit w st1 0 (builders st1) = Inr rs"
    and col: "collect fuel w 0 rs st1 = Some st2"
    and st0: "st0 = partition_pending (st2\<lparr>nxt := nxt st2 + length (builders st1)\<rparr>)"
    by (rule run_Inr)
  from register_builders_frame[OF reg] have f1:
    "builders st1 = bs" "pending st1 = []" "completed st1 = {}" "cancelled st1 = {}"
    "validbuilders st1 = []" "removals st1 = []" "nxt st1 = 0"
    by (simp_all add: init_fields_fresh)
  from sub f1(1) have sub': "submit w st1 0 bs = Inr rs" by simp
  from submit_fst[OF sub'] have "distinct (map fst rs)" by simp
  from collect_result[OF col this] f1 obtain new where
    f2: "pending st2 = []" "completed st2 = {}" "cancelled st2 = {}" "removals st2 = []"
    and v2: "validbuilders st2 = new" and dn: "distinct new"
    and sn: "set new = {fst x |x. x \<in> set rs \<and> snd x \<noteq> None}"
    by auto
  have "distinct (validbuilders st0)" unfolding st0 using v2 dn by (simp add: partition_pending_def)
  moreover have "set (validbuilders st0) = {fst x |x. x \<in> set rs \<and> snd x \<noteq> None}"
    unfolding st0 using v2 sn by (simp add: partition_pending_def)
  moreover have "pending st0 = filter (\<lambda>r. is_batch_job (heap st0 r)) (validbuilders st0)"
    unfolding st0 using f2 by (simp add: partition_pending_def)
  moreover have "completed st0 = {}" "cancelled st0 = {}" "removals st0 = []"
    unfolding st0 using f2 by (simp_all add: partition_pending_def)
  ultimately show ?thesis using reg sub' by (rule that[rotated 2])
qed

lemma run_init_inv:
  assumes "run fuel w bs (init_fields cfg account maxpendtime pi) = Some (Inr st0)"
  shows "tracking_inv st0"
proof -
  from assms obtain
    d: "distinct (validbuilders st0)"
    and p: "pending st0 = filter (\<lambda>r. is_batch_job (heap st0 r)) (validbuilders st0)"
    and e: "completed st0 = {}" "cancelled st0 = {}" "removals st0 = []"
    by (rule run_init_result)
  show ?thesis unfolding tracking_inv_def using d e by (simp add: p)
qed

lemma count_list_distinct: "distinct xs \<Longrightarrow> x \<in> set xs \<Longrightarrow> count_list xs x = 1"
  by (induction xs) auto

section \<open>The before-scripts written by the constructor\<close>

text \<open>The lines of the module commands, without \<^const>\<open>join\<close>.\<close>

lemma join_lines:
  "cmds \<noteq> [] \<Longrightarrow> join sep cmds @ sep = concat (map (\<lambda>c. c @ sep) cmds)"
  by (induction sep cmds rule: join.induct) simp_all

lemma script_content_lines:
  "script_content w s
   = ''#!/bin/bash'' @ nl
     @ (case get_module_commands w (module s) of
          None \<Rightarrow> []
        | Some cmds \<Rightarrow> concat (map (\<lambda>c. c @ nl) cmds))
     @ (case before_script s of None \<Rightarrow> [] | Some t \<Rightarrow> t)"
  by (simp add: script_content_def Let_def join_lines split: option.splits)

text \<open>The paths of the directory and of the script of an executor with a plain name.\<close>

lemma plain_name_hd: "plain_name n \<Longrightarrow> \<not> (n \<noteq> [] \<and> hd n = CHR ''/'')"
  by (cases n) (auto simp: plain_name_def)

lemma plain_name_last: "plain_name n \<Longrightarrow> last n \<noteq> CHR ''/''"
  by (auto simp: plain_name_def dest: last_in_set)

lemma dir_path_plain:
  "plain_name n \<Longrightarrow> os_path_join root [n] = (if root = [] \<or> last root = CHR ''/'' then root else root @ ''/'') @ n"
  using plain_name_hd[of n]
  by (auto simp: os_path_join_def join_component_def)

lemma script_path_plain:
  assumes "plain_name n"
  shows "os_path_join root [n, ''before_script.sh''] = (if root = [] \<or> last root = CHR ''/'' then root else root @ ''/'')
         @ n @ ''/before_script.sh''"
proof -
  from assms have ne: "n \<noteq> []" by (simp add: plain_name_def)
  have "os_path_join root [n, ''before_script.sh'']
        = join_component (os_path_join root [n]) ''before_script.sh''"
    by (simp add: os_path_join_def)
  also have "\<dots> = join_component ((if root = [] \<or> last root = CHR ''/'' then root else root @ ''/'') @ n) ''before_script.sh''"
    using assms by (simp add: dir_path_plain)
  also have "\<dots> = (if root = [] \<or> last root = CHR ''/'' then root else root @ ''/'')
         @ n @ ''/before_script.sh''"
    using ne plain_name_last[OF assms] by (simp add: join_component_def)
  finally show ?thesis .
qed

lemma script_path_inj:
  "plain_name n \<Longrightarrow> plain_name m \<Longrightarrow>
   os_path_join root [n, ''before_script.sh''] = os_path_join root [m, ''before_script.sh''] \<Longrightarrow>
   n = m"
  by (simp add: script_path_plain)

lemma setup_executor_files_other:
  assumes "os_path_join (BUILDTEST_EXECUTOR_DIR w) [n', ''before_script.sh'']
           \<noteq> os_path_join (BUILDTEST_EXECUTOR_DIR w) [n, ''before_script.sh'']"
  shows "files (setup_executor w st n' fs)
           (os_path_join (BUILDTEST_EXECUTOR_DIR w) [n, ''before_script.sh''])
         = files fs (os_path_join (BUILDTEST_EXECUTOR_DIR w) [n, ''before_script.sh''])"
  using assms
  by (simp add: setup_executor_def create_dir_def write_file_def Let_def split: option.splits)

lemma setup_executor_files_same:
  "get st n = Some e \<Longrightarrow>
   files (setup_executor w st n fs)
     (os_path_join (BUILDTEST_EXECUTOR_DIR w) [n, ''before_script.sh''])
   = Some (script_content w (e_settings e))"
  by (simp add: setup_executor_def create_dir_def write_file_def Let_def)

lemma setup_executor_dirs:
  "dirs (setup_executor w st n fs)
   = insert (os_path_join (BUILDTEST_EXECUTOR_DIR w) [n]) (dirs fs)"
  by (simp add: setup_executor_def create_dir_def write_file_def Let_def split: option.splits)

lemma fold_setup_files_notin:
  "n \<notin> set ns \<Longrightarrow> plain_name n \<Longrightarrow> \<forall>m \<in> set ns. plain_name m \<Longrightarrow>
   files (fold (setup_executor w st) ns fs)
     (os_path_join (BUILDTEST_EXECUTOR_DIR w) [n, ''before_script.sh''])
   = files fs (os_path_join (BUILDTEST_EXECUTOR_DIR w) [n, ''before_script.sh''])"
proof (induction ns arbitrary: fs)
  case Nil
  then show ?case by simp
next
  case (Cons a ns)
  from Cons.prems have an: "a \<noteq> n" and nn: "n \<notin> set ns" and pa: "plain_name a"
    and pns: "\<forall>m \<in> set ns. plain_name m" by auto
  from an pa Cons.prems(2)
  have "os_path_join (BUILDTEST_EXECUTOR_DIR w) [a, ''before_script.sh'']
        \<noteq> os_path_join (BUILDTEST_EXECUTOR_DIR w) [n, ''before_script.sh'']"
    by (auto dest: script_path_inj)
  with Cons.IH[OF nn Cons.prems(2) pns, of "setup_executor w st a fs"] show ?case
    by (simp add: setup_executor_files_other)
qed

lemma fold_setup_files_in:
  "n \<in> set ns \<Longrightarrow> get st n = Some e \<Longrightarrow> \<forall>m \<in> set ns. plain_name m \<Longrightarrow>
   files (fold (setup_executor w st) ns fs)
     (os_path_join (BUILDTEST_EXECUTOR_DIR w) [n, ''before_script.sh''])
   = Some (script_content w (e_settings e))"
proof (induction ns arbitrary: fs)
  case Nil
  then show ?case by simp
next
  case (Cons a ns)
  from Cons.prems(3) have pns: "\<forall>m \<in> set ns. plain_name m" by simp
  show ?case
  proof (cases "n \<in> set ns")
    case True
    from Cons.IH[OF True Cons.prems(2) pns] show ?thesis by simp
  next
    case False
    with Cons.prems(1) have a: "a = n" by simp
    with Cons.prems(3) have "plain_name n" by simp
    with False pns a Cons.prems(2) show ?thesis
      by (simp add: fold_setup_files_notin setup_executor_files_same)
  qed
qed

lemma fold_setup_dirs:
  "dirs (fold (setup_executor w st) ns fs)
   = dirs fs \<union> (\<lambda>n. os_path_join (BUILDTEST_EXECUTOR_DIR w) [n]) ` set ns"
  by (induction ns arbitrary: fs) (auto simp: setup_executor_dirs)

text \<open>Running the loop again changes nothing, whatever the names are.\<close>

lemma map_add_same: "(a ++ m) ++ m = a ++ m"
  by (rule ext) (simp add: map_add_def split: option.splits)

lemma setup_executor_files_add:
  "files (setup_executor w st n fs) = files fs ++ files (setup_executor w st n empty_fs)"
  by (simp add: setup_executor_def create_dir_def write_file_def Let_def empty_fs_def
      split: option.splits)

lemma fold_setup_files_add:
  "files (fold (setup_executor w st) ns fs)
   = files fs ++ files (fold (setup_executor w st) ns empty_fs)"
proof (induction ns rule: rev_induct)
  case Nil
  then show ?case by (simp add: empty_fs_def)
next
  case (snoc a ns)
  have "files (fold (setup_executor w st) (ns @ [a]) fs)
        = files (fold (setup_executor w st) ns fs) ++ files (setup_executor w st a empty_fs)"
    by (simp add: setup_executor_files_add[of w st a "fold (setup_executor w st) ns fs"])
  also have "\<dots> = files fs ++ (files (fold (setup_executor w st) ns empty_fs)
                              ++ files (setup_executor w st a empty_fs))"
    by (simp add: snoc.IH)
  also have "files (fold (setup_executor w st) ns empty_fs)
               ++ files (setup_executor w st a empty_fs)
             = files (fold (setup_executor w st) (ns @ [a]) empty_fs)"
    by (simp add: setup_executor_files_add[of w st a "fold (setup_executor w st) ns empty_fs"])
  finally show ?case .
qed

lemma fold_setup_idem:
  "fold (setup_executor w st) ns (fold (setup_executor w st) ns fs)
   = fold (setup_executor w st) ns fs"
proof -
  let ?F = "fold (setup_executor w st) ns fs"
  let ?E = "files (fold (setup_executor w st) ns empty_fs)"
  have "files (fold (setup_executor w st) ns ?F) = files ?F ++ ?E"
    by (rule fold_setup_files_add)
  also have "files ?F = files fs ++ ?E" by (rule fold_setup_files_add)
  also have "(files fs ++ ?E) ++ ?E = files fs ++ ?E" by (rule map_add_same)
  also have "\<dots> = files ?F" by (rule fold_setup_files_add[symmetric])
  finally have f: "files (fold (setup_executor w st) ns ?F) = files ?F" .
  have d: "dirs (fold (setup_executor w st) ns ?F) = dirs ?F"
    by (auto simp: fold_setup_dirs)
  from d f show ?thesis by (rule filesystem.equality) simp
qed

section \<open>Every statement of an iteration keeps the containers apart\<close>

lemma move_completed_last:
  "move_completed rs st = Inr st' \<Longrightarrow> last (st # move_completed_states rs st) = st'"
proof (induction rs arbitrary: st)
  case Nil
  then show ?case by simp
next
  case (Cons r rs)
  from Cons.prems obtain p where p: "list_remove r (pending st) = Inr p"
    and rec: "move_completed rs (st\<lparr>pending := p, completed := insert r (completed st)\<rparr>) = Inr st'"
    by (auto split: sum.splits)
  from Cons.IH[OF rec] p show ?case by (simp add: Let_def)
qed

lemma move_cancelled_last:
  "move_cancelled rs st = Inr st' \<Longrightarrow> last (st # move_cancelled_states rs st) = st'"
proof (induction rs arbitrary: st)
  case Nil
  then show ?case by simp
next
  case (Cons r rs)
  from Cons.prems obtain p v where p: "list_remove r (pending st) = Inr p"
    and v: "list_remove r (validbuilders st) = Inr v"
    and rec: "move_cancelled rs (st\<lparr>pending := p, cancelled := insert r (cancelled st),
                validbuilders := v, removals := removals st @ [r]\<rparr>) = Inr st'"
    by (auto simp: Let_def split: sum.splits)
  from Cons.IH[OF rec] p v show ?case by (simp add: Let_def)
qed

lemma poll_iter_states_neg: "pollinterval st < 0 \<Longrightarrow> poll_iter_states w st = []"
  by (simp add: poll_iter_states_def time_sleep_def)

lemma poll_iter_states_nonneg:
  "0 \<le> pollinterval st \<Longrightarrow>
   poll_iter_states w st =
     (case poll_scan w (pending st) (st\<lparr>clock := clock st + pollinterval st\<rparr>) [] [] of
        Inl e \<Rightarrow> [st\<lparr>clock := clock st + pollinterval st\<rparr>]
      | Inr (st2, completed_now, cancelled_now) \<Rightarrow>
          st\<lparr>clock := clock st + pollinterval st\<rparr> # st2
          # move_completed_states completed_now st2
          @ (case move_completed completed_now st2 of
               Inl e \<Rightarrow> []
             | Inr st3 \<Rightarrow> move_cancelled_states cancelled_now st3))"
  by (simp add: poll_iter_states_def time_sleep_def)

lemma poll_iter_states_member_nonneg:
  "s \<in> set (poll_iter_states w st) \<Longrightarrow> 0 \<le> pollinterval st"
  by (rule ccontr) (simp add: poll_iter_states_neg)

lemma poll_iter_states_last:
  assumes "poll_iter w st = Inr st'"
  shows "last (poll_iter_states w st) = st'"
proof -
  from assms obtain st2 c x st3 where
    sc: "poll_scan w (pending st) (st\<lparr>clock := clock st + pollinterval st\<rparr>) [] [] = Inr (st2, c, x)"
    and mc: "move_completed c st2 = Inr st3" and mx: "move_cancelled x st3 = Inr st'"
    by (rule poll_iter_Inr)
  from assms have n: "0 \<le> pollinterval st" by (rule poll_iter_Inr_nonneg)
  have "last (poll_iter_states w st)
        = last ((st2 # move_completed_states c st2) @ move_cancelled_states x st3)"
    using sc mc by (simp add: poll_iter_states_nonneg[OF n])
  also have "\<dots> = last (st3 # move_cancelled_states x st3)"
    using move_completed_last[OF mc] by (cases "move_cancelled_states x st3 = []") simp_all
  also have "\<dots> = st'" using mx by (rule move_cancelled_last)
  finally show ?thesis .
qed

lemma move_completed_states_exclusive:
  "at_most_one_set st \<Longrightarrow> distinct rs \<Longrightarrow> set rs \<subseteq> set (pending st) \<Longrightarrow>
   s \<in> set (move_completed_states rs st) \<Longrightarrow> at_most_one_set s"
proof (induction rs arbitrary: st)
  case Nil
  then show ?case by simp
next
  case (Cons r rs)
  let ?s1 = "st\<lparr>pending := remove1 r (pending st)\<rparr>"
  let ?s2 = "?s1\<lparr>completed := insert r (completed ?s1)\<rparr>"
  from Cons.prems(3) have r: "r \<in> set (pending st)" by simp
  from Cons.prems(1) have w: "distinct (pending st)" "set (pending st) \<inter> completed st = {}"
    "set (pending st) \<inter> cancelled st = {}" "completed st \<inter> cancelled st = {}"
    by (simp_all add: at_most_one_set_def)
  have w1: "at_most_one_set ?s1"
    using w by (auto simp: at_most_one_set_def dest: notin_set_remove1)
  have w2: "at_most_one_set ?s2"
    using w r by (auto simp: at_most_one_set_def dest: notin_set_remove1)
  from Cons.prems(4) r have "s = ?s1 \<or> s = ?s2 \<or> s \<in> set (move_completed_states rs ?s2)"
    by (simp add: list_remove_def Let_def)
  moreover have "at_most_one_set s" if "s \<in> set (move_completed_states rs ?s2)"
  proof (rule Cons.IH[OF w2 _ _ that])
    from Cons.prems(2) show "distinct rs" by simp
    from Cons.prems(2,3) w(1) show "set rs \<subseteq> set (pending ?s2)" by auto
  qed
  ultimately show ?case using w1 w2 by blast
qed

lemma move_cancelled_states_exclusive:
  "at_most_one_set st \<Longrightarrow> distinct rs \<Longrightarrow> set rs \<subseteq> set (pending st) \<Longrightarrow>
   s \<in> set (move_cancelled_states rs st) \<Longrightarrow> at_most_one_set s"
proof (induction rs arbitrary: st)
  case Nil
  then show ?case by simp
next
  case (Cons r rs)
  let ?s1 = "st\<lparr>pending := remove1 r (pending st)\<rparr>"
  let ?s2 = "?s1\<lparr>cancelled := insert r (cancelled ?s1)\<rparr>"
  from Cons.prems(3) have r: "r \<in> set (pending st)" by simp
  from Cons.prems(1) have w: "distinct (pending st)" "set (pending st) \<inter> completed st = {}"
    "set (pending st) \<inter> cancelled st = {}" "completed st \<inter> cancelled st = {}"
    by (simp_all add: at_most_one_set_def)
  have w1: "at_most_one_set ?s1"
    using w by (auto simp: at_most_one_set_def dest: notin_set_remove1)
  have w2: "at_most_one_set ?s2"
    using w r by (auto simp: at_most_one_set_def dest: notin_set_remove1)
  show ?case
  proof (cases "r \<in> set (validbuilders st)")
    case False
    with Cons.prems(4) r have "s = ?s1 \<or> s = ?s2" by (simp add: list_remove_def Let_def)
    with w1 w2 show ?thesis by blast
  next
    case True
    let ?s3 = "?s2\<lparr>validbuilders := remove1 r (validbuilders ?s2),
                   removals := removals ?s2 @ [r]\<rparr>"
    have w3: "at_most_one_set ?s3" using w2 by (simp add: at_most_one_set_def)
    from Cons.prems(4) r True
    have "s = ?s1 \<or> s = ?s2 \<or> s = ?s3 \<or> s \<in> set (move_cancelled_states rs ?s3)"
      by (simp add: list_remove_def Let_def)
    moreover have "at_most_one_set s" if "s \<in> set (move_cancelled_states rs ?s3)"
    proof (rule Cons.IH[OF w3 _ _ that])
      from Cons.prems(2) show "distinct rs" by simp
      from Cons.prems(2,3) w(1) show "set rs \<subseteq> set (pending ?s3)" by auto
    qed
    ultimately show ?thesis using w1 w2 w3 by blast
  qed
qed

lemma tracking_inv_at_most_one: "tracking_inv st \<Longrightarrow> at_most_one_set st"
  by (simp add: tracking_inv_def at_most_one_set_def)

lemma poll_iter_states_exclusive:
  assumes inv: "tracking_inv st" and s: "s \<in> set (poll_iter_states w st)"
  shows "at_most_one_set s"
proof -
  let ?st1 = "st\<lparr>clock := clock st + pollinterval st\<rparr>"
  from s have n: "0 \<le> pollinterval st" by (rule poll_iter_states_member_nonneg)
  from inv have a: "at_most_one_set st" by (rule tracking_inv_at_most_one)
  then have a1: "at_most_one_set ?st1" by (simp add: at_most_one_set_def)
  show ?thesis
  proof (cases "poll_scan w (pending st) ?st1 [] []")
    case (Inl e)
    with s have "s = ?st1" by (simp add: poll_iter_states_nonneg[OF n])
    with a1 show ?thesis by simp
  next
    case (Inr res)
    obtain st2 c x where res: "res = (st2, c, x)" by (cases res) auto
    note sc = Inr[unfolded res]
    note f2 = poll_scan_frame[OF sc]
    have a2: "at_most_one_set st2" using a f2 by (simp add: at_most_one_set_def)
    from poll_iter_shape[OF inv sc] obtain st3 st4 where
      mc: "move_completed c st2 = Inr st3" and mx: "move_cancelled x st3 = Inr st4"
      and dc: "distinct c" and dx: "distinct x"
      and c: "set c = {r \<in> set (pending st). is_complete (heap st2 r)}"
      and x: "set x = {r \<in> set (pending st). \<not> is_complete (heap st2 r) \<and> is_failure (heap st2 r)}"
      by blast
    have cs: "set c \<subseteq> set (pending st2)" using c f2 by auto
    from move_completed_ok[OF _ dc cs] a2 mc
    have p3: "pending st3 = filter (\<lambda>r. r \<notin> set c) (pending st2)"
      by (auto simp: at_most_one_set_def)
    note f3 = move_completed_frame[OF mc]
    have a3: "at_most_one_set st3"
      using a2 p3 f3(1,2) cs by (auto simp: at_most_one_set_def)
    have xs: "set x \<subseteq> set (pending st3)" using x c p3 f2 by auto
    from s sc mc have "s = ?st1 \<or> s = st2 \<or> s \<in> set (move_completed_states c st2)
        \<or> s \<in> set (move_cancelled_states x st3)"
      by (auto simp: poll_iter_states_nonneg[OF n])
    with a1 a2 move_completed_states_exclusive[OF a2 dc cs]
      move_cancelled_states_exclusive[OF a3 dx xs]
    show ?thesis by blast
  qed
qed

lemma move_completed_states_pending:
  "s \<in> set (move_completed_states rs st) \<Longrightarrow> subseq (pending s) (pending st)"
proof (induction rs arbitrary: st)
  case Nil
  then show ?case by simp
next
  case (Cons r rs)
  let ?s1 = "st\<lparr>pending := remove1 r (pending st)\<rparr>"
  let ?s2 = "?s1\<lparr>completed := insert r (completed ?s1)\<rparr>"
  have sub: "subseq (remove1 r (pending st)) (pending st)" by (rule subseq_remove1)
  from Cons.prems have "s = ?s1 \<or> s = ?s2 \<or> s \<in> set (move_completed_states rs ?s2)"
    by (auto simp: list_remove_def Let_def split: if_splits)
  moreover have "subseq (pending s) (pending st)" if "s \<in> set (move_completed_states rs ?s2)"
  proof -
    from Cons.IH[OF that] have "subseq (pending s) (remove1 r (pending st))" by simp
    then show ?thesis using sub by (rule subseq_order.order_trans)
  qed
  ultimately show ?case using sub by auto
qed

lemma move_cancelled_states_pending:
  "s \<in> set (move_cancelled_states rs st) \<Longrightarrow> subseq (pending s) (pending st)"
proof (induction rs arbitrary: st)
  case Nil
  then show ?case by simp
next
  case (Cons r rs)
  let ?s1 = "st\<lparr>pending := remove1 r (pending st)\<rparr>"
  let ?s2 = "?s1\<lparr>cancelled := insert r (cancelled ?s1)\<rparr>"
  let ?s3 = "?s2\<lparr>validbuilders := remove1 r (validbuilders ?s2), removals := removals ?s2 @ [r]\<rparr>"
  have sub: "subseq (remove1 r (pending st)) (pending st)" by (rule subseq_remove1)
  from Cons.prems
  have "s = ?s1 \<or> s = ?s2 \<or> s = ?s3 \<or> s \<in> set (move_cancelled_states rs ?s3)"
    by (auto simp: list_remove_def Let_def split: if_splits)
  moreover have "subseq (pending s) (pending st)" if "s \<in> set (move_cancelled_states rs ?s3)"
  proof -
    from Cons.IH[OF that] have "subseq (pending s) (remove1 r (pending st))" by simp
    then show ?thesis using sub by (rule subseq_order.order_trans)
  qed
  ultimately show ?case using sub by auto
qed

lemma poll_iter_states_pending:
  assumes "s \<in> set (poll_iter_states w st)"
  shows "subseq (pending s) (pending st)"
proof -
  let ?st1 = "st\<lparr>clock := clock st + pollinterval st\<rparr>"
  from assms have n: "0 \<le> pollinterval st" by (rule poll_iter_states_member_nonneg)
  show ?thesis
  proof (cases "poll_scan w (pending st) ?st1 [] []")
    case (Inl e)
    with assms have "s = ?st1" by (simp add: poll_iter_states_nonneg[OF n])
    then show ?thesis by simp
  next
    case (Inr res)
    obtain st2 c x where res: "res = (st2, c, x)" by (cases res) auto
    note sc = Inr[unfolded res]
    note f2 = poll_scan_frame[OF sc]
    have p2: "pending st2 = pending st" using f2(1) by simp
    show ?thesis
    proof (cases "move_completed c st2")
      case (Inl e)
      with assms sc have "s = ?st1 \<or> s = st2 \<or> s \<in> set (move_completed_states c st2)"
        by (auto simp: poll_iter_states_nonneg[OF n])
      with p2 move_completed_states_pending[of s c st2] show ?thesis by auto
    next
      case (Inr st3)
      from move_completed_frame(6)[OF Inr] p2 have p3: "subseq (pending st3) (pending st)"
        by simp
      from assms sc Inr have "s = ?st1 \<or> s = st2 \<or> s \<in> set (move_completed_states c st2)
          \<or> s \<in> set (move_cancelled_states x st3)"
        by (auto simp: poll_iter_states_nonneg[OF n])
      moreover have "subseq (pending s) (pending st)" if "s \<in> set (move_cancelled_states x st3)"
        using move_cancelled_states_pending[OF that] p3 by (rule subseq_order.order_trans)
      ultimately show ?thesis using p2 move_completed_states_pending[of s c st2] by auto
    qed
  qed
qed

section \<open>What leaves the pending list, and which errors the loop can end in\<close>

lemma poll_iter_conserves:
  assumes inv: "tracking_inv st" and it: "poll_iter w st = Inr st'"
  shows "set (pending st) \<subseteq> set (pending st') \<union> completed st' \<union> cancelled st'"
proof -
  from it obtain st2 c x st3 where
    sc: "poll_scan w (pending st) (st\<lparr>clock := clock st + pollinterval st\<rparr>) [] [] = Inr (st2, c, x)"
    and mc: "move_completed c st2 = Inr st3" and mx: "move_cancelled x st3 = Inr st'"
    by (rule poll_iter_Inr)
  from poll_iter_shape[OF inv sc] mc mx have
    p: "pending st' = filter (\<lambda>r. r \<notin> set c \<and> r \<notin> set x) (pending st)"
    and co: "completed st' = completed st \<union> set c"
    and ca: "cancelled st' = cancelled st \<union> set x"
    by auto
  show ?thesis unfolding p co ca by auto
qed

lemma poll_iters_conserves:
  "tracking_inv st \<Longrightarrow> poll_iters n w st = Inr st' \<Longrightarrow>
   set (pending st) \<subseteq> set (pending st') \<union> completed st' \<union> cancelled st'"
proof (induction n arbitrary: st)
  case 0
  then show ?case by auto
next
  case (Suc n)
  show ?case
  proof (cases "pending st = []")
    case True
    then show ?thesis by simp
  next
    case False
    with Suc.prems(2) obtain s where s: "poll_iter w st = Inr s" and r: "poll_iters n w s = Inr st'"
      by (auto split: sum.splits)
    from poll_iter_inv[OF Suc.prems(1) s] have inv_s: "tracking_inv s" .
    from poll_iter_conserves[OF Suc.prems(1) s]
    have a: "set (pending st) \<subseteq> set (pending s) \<union> completed s \<union> cancelled s" .
    from Suc.IH[OF inv_s r]
    have b: "set (pending s) \<subseteq> set (pending st') \<union> completed st' \<union> cancelled st'" .
    from poll_iters_moves[OF r] have "completed s \<subseteq> completed st'" "cancelled s \<subseteq> cancelled st'"
      by simp_all
    with a b show ?thesis by blast
  qed
qed

lemma poll_iter_pollinterval:
  assumes "poll_iter w st = Inr st'"
  shows "pollinterval st' = pollinterval st"
proof -
  from assms obtain st2 c x st3 where
    sc: "poll_scan w (pending st) (st\<lparr>clock := clock st + pollinterval st\<rparr>) [] [] = Inr (st2, c, x)"
    and mc: "move_completed c st2 = Inr st3" and mx: "move_cancelled x st3 = Inr st'"
    by (rule poll_iter_Inr)
  from poll_scan_fields[OF sc]
  have e2: "st2 = st\<lparr>clock := clock st + pollinterval st\<rparr>\<lparr>heap := heap st2\<rparr>" .
  from move_completed_Inr[OF mc]
  have e3: "st3 = st2\<lparr>pending := pending st3, completed := completed st2 \<union> set c\<rparr>" by simp
  from move_cancelled_Inr[OF mx]
  have e4: "st' = st3\<lparr>pending := pending st', cancelled := cancelled st3 \<union> set x,
            validbuilders := validbuilders st', removals := removals st3 @ x\<rparr>" by simp
  have "pollinterval st' = pollinterval st3" by (subst e4) simp
  also have "\<dots> = pollinterval st2" by (subst e3) simp
  also have "\<dots> = pollinterval st" by (subst e2) simp
  finally show ?thesis .
qed

lemma poll_iters_only_AttributeError:
  "tracking_inv st \<Longrightarrow> 0 \<le> pollinterval st \<Longrightarrow> poll_iters n w st = Inl e \<Longrightarrow>
   e = AttributeError"
proof (induction n arbitrary: st)
  case 0
  then show ?case by simp
next
  case (Suc n)
  show ?case
  proof (cases "pending st = []")
    case True
    with Suc.prems(3) show ?thesis by simp
  next
    case False
    show ?thesis
    proof (cases "poll_iter w st")
      case (Inl e')
      with Suc.prems(3) False have e: "e' = e" by simp
      from poll_iter_error[OF Inl] poll_iter_no_ValueError[OF Suc.prems(1), of w] Inl
      have "e' = AttributeError \<or> e' = ValueError negative_sleep" by auto
      moreover have "e' \<noteq> ValueError negative_sleep"
      proof
        assume "e' = ValueError negative_sleep"
        with Inl have "poll_iter w st = Inl (ValueError negative_sleep)" by simp
        moreover have "poll_iter w st \<noteq> Inl (ValueError negative_sleep)"
          unfolding poll_iter_nonneg[OF Suc.prems(2)] print_pending_jobs_def
          by (auto split: sum.splits prod.splits
              dest: poll_scan_error move_completed_error move_cancelled_error pending_rows_error
              simp: messages_distinct)
        ultimately show False by simp
      qed
      ultimately show ?thesis using e by simp
    next
      case (Inr s)
      with Suc.prems(3) False have r: "poll_iters n w s = Inl e" by simp
      from poll_iter_inv[OF Suc.prems(1) Inr] have "tracking_inv s" .
      moreover from poll_iter_pollinterval[OF Inr] Suc.prems(2) have "0 \<le> pollinterval s" by simp
      ultimately show ?thesis using r by (rule Suc.IH)
    qed
  qed
qed

section \<open>The claims\<close>

text \<open>
  C1. In an execution that constructs the orchestrator, calls \<^verbatim>\<open>run\<close> once and then
  polls, take the state \<open>st1\<close> after the partition step or after any number of
  iterations of the polling loop, and a state \<open>st2\<close> any number of iterations later.
  In \<open>st1\<close>, and after every statement of the iteration that starts in \<open>st1\<close>, no
  builder is in more than one of pending, completed and cancelled (nor twice in
  pending). From \<open>st1\<close> to \<open>st2\<close> pending gains nothing, completed and
  cancelled lose nothing, and whatever is new in completed or cancelled was pending in
  \<open>st1\<close>; so no completed or cancelled builder returns to pending, and none moves
  between completed and cancelled. No builder is dropped: the builders that have left
  pending between \<open>st1\<close> and \<open>st2\<close> are exactly those that are new in completed
  or in cancelled.
\<close>

theorem tracking_sets_exclusive:
  assumes "run fuel w bs (fst (init w cfg account maxpendtime pi fs)) = Some (Inr st0)"
    and "poll_iters n w st0 = Inr st1"
    and "poll_iters m w st1 = Inr st2"
  shows "at_most_one_set st1
       \<and> (\<forall>s \<in> set (poll_iter_states w st1). at_most_one_set s)
       \<and> (set (pending st2) \<subseteq> set (pending st1)
          \<and> completed st1 \<subseteq> completed st2 \<and> cancelled st1 \<subseteq> cancelled st2
          \<and> completed st2 - completed st1 \<subseteq> set (pending st1)
          \<and> cancelled st2 - cancelled st1 \<subseteq> set (pending st1))
       \<and> ((completed st1 \<union> cancelled st1) \<inter> set (pending st2) = {}
          \<and> completed st1 \<inter> cancelled st2 = {} \<and> cancelled st1 \<inter> completed st2 = {})
       \<and> set (pending st1) - set (pending st2)
           = (completed st2 - completed st1) \<union> (cancelled st2 - cancelled st1)"
proof -
  from assms(1) have "tracking_inv st0" unfolding fst_init by (rule run_init_inv)
  then have i1: "tracking_inv st1" using assms(2) by (rule poll_iters_inv)
  then have i2: "tracking_inv st2" using assms(3) by (rule poll_iters_inv)
  from poll_iters_moves[OF assms(3)] have
    mv: "subseq (pending st2) (pending st1)"
        "completed st1 \<subseteq> completed st2" "cancelled st1 \<subseteq> cancelled st2"
        "completed st2 \<subseteq> completed st1 \<union> set (pending st1)"
        "cancelled st2 \<subseteq> cancelled st1 \<union> set (pending st1)" by simp_all
  have ps: "set (pending st2) \<subseteq> set (pending st1)" using mv(1) by (rule subseq_set)
  from i1 have a: "distinct (pending st1)" "set (pending st1) \<inter> completed st1 = {}"
    "set (pending st1) \<inter> cancelled st1 = {}" "completed st1 \<inter> cancelled st1 = {}"
    by (simp_all add: tracking_inv_def)
  from i2 have b: "set (pending st2) \<inter> completed st2 = {}"
    "set (pending st2) \<inter> cancelled st2 = {}" "completed st2 \<inter> cancelled st2 = {}"
    by (simp_all add: tracking_inv_def)
  have c1: "completed st2 - completed st1 \<subseteq> set (pending st1)" using mv(4) by blast
  have c2: "cancelled st2 - cancelled st1 \<subseteq> set (pending st1)" using mv(5) by blast
  have c3: "(completed st1 \<union> cancelled st1) \<inter> set (pending st2) = {}"
    using a(2,3) ps by blast
  have c4: "completed st1 \<inter> cancelled st2 = {}" using b(3) mv(2) by blast
  have c5: "cancelled st1 \<inter> completed st2 = {}" using b(3) mv(3) by blast
  have c0: "at_most_one_set st1" using i1 by (rule tracking_inv_at_most_one)
  have c6: "\<forall>s \<in> set (poll_iter_states w st1). at_most_one_set s"
    using poll_iter_states_exclusive[OF i1] by blast
  have cons: "set (pending st1) \<subseteq> set (pending st2) \<union> completed st2 \<union> cancelled st2"
    using i1 assms(3) by (rule poll_iters_conserves)
  have c7: "set (pending st1) - set (pending st2)
           = (completed st2 - completed st1) \<union> (cancelled st2 - cancelled st1)"
  proof
    show "set (pending st1) - set (pending st2)
          \<subseteq> (completed st2 - completed st1) \<union> (cancelled st2 - cancelled st1)"
      using cons a(2,3) by blast
    show "(completed st2 - completed st1) \<union> (cancelled st2 - cancelled st1)
          \<subseteq> set (pending st1) - set (pending st2)"
      using c1 c2 b(1,2) by blast
  qed
  from c0 c6 ps mv(2,3) c1 c2 c3 c4 c5 c7 show ?thesis by simp
qed

theorem tracking_sets_exclusive_witness:
  "\<exists>st0 st1 st2.
     run 2 example_world example_builders
       (fst (init example_world example_config None None None empty_fs)) = Some (Inr st0)
     \<and> poll_iters 0 example_world st0 = Inr st1 \<and> poll_iters 1 example_world st1 = Inr st2
     \<and> pending st1 = [2, 3] \<and> completed st1 = {} \<and> cancelled st1 = {}
     \<and> pending st2 = [] \<and> completed st2 = {2} \<and> cancelled st2 = {3}
     \<and> length (poll_iter_states example_world st1) = 7
     \<and> (\<forall>s \<in> set (poll_iter_states example_world st1). at_most_one_set s)
     \<and> at_most_one_set st1 \<and> completed st2 \<inter> cancelled st2 = {}
     \<and> completed st2 - completed st1 \<subseteq> set (pending st1)
     \<and> cancelled st2 - cancelled st1 \<subseteq> set (pending st1)
     \<and> set (pending st1) - set (pending st2)
         = (completed st2 - completed st1) \<union> (cancelled st2 - cancelled st1)"
proof -
  have "\<exists>st0 st1 st2.
     run 2 example_world example_builders
       (fst (init example_world example_config None None None empty_fs)) = Some (Inr st0)
     \<and> poll_iters 0 example_world st0 = Inr st1 \<and> poll_iters 1 example_world st1 = Inr st2
     \<and> pending st1 = [2, 3] \<and> completed st1 = {} \<and> cancelled st1 = {}
     \<and> pending st2 = [] \<and> completed st2 = {2} \<and> cancelled st2 = {3}
     \<and> length (poll_iter_states example_world st1) = 7"
    by (simp add: example_simps poll_iter_states_def eval_nat_numeral)
  then obtain st0 st1 st2 where
    h: "run 2 example_world example_builders
         (fst (init example_world example_config None None None empty_fs)) = Some (Inr st0)"
       "poll_iters 0 example_world st0 = Inr st1" "poll_iters 1 example_world st1 = Inr st2"
    and v: "pending st1 = [2, 3]" "completed st1 = {}" "cancelled st1 = {}"
       "pending st2 = []" "completed st2 = {2}" "cancelled st2 = {3}"
       "length (poll_iter_states example_world st1) = 7"
    by blast
  from tracking_sets_exclusive[OF h] have
    "at_most_one_set st1" "\<forall>s \<in> set (poll_iter_states example_world st1). at_most_one_set s"
    "completed st2 - completed st1 \<subseteq> set (pending st1)"
    "cancelled st2 - cancelled st1 \<subseteq> set (pending st1)"
    "set (pending st1) - set (pending st2)
         = (completed st2 - completed st1) \<union> (cancelled st2 - cancelled st1)" by simp_all
  moreover have "completed st2 \<inter> cancelled st2 = {}" using v by simp
  ultimately show ?thesis using h v by blast
qed

text \<open>
  C2. From any state of the orchestrator, one iteration of the polling loop leaves a
  pending list that is the old one with some elements dropped: it is the same list or a
  strictly shorter one; after every statement within the iteration the pending list is
  the old one with some elements dropped. The same holds after any number of iterations: nothing is ever
  added to pending once \<^verbatim>\<open>run\<close> has filled it.
\<close>

theorem pending_never_grows:
  "(poll_iter w st = Inr st' \<longrightarrow>
      subseq (pending st') (pending st)
      \<and> (pending st' = pending st \<or> length (pending st') < length (pending st)))
   \<and> (\<forall>s \<in> set (poll_iter_states w st). subseq (pending s) (pending st))
   \<and> (poll_iters n w st = Inr st'' \<longrightarrow>
      subseq (pending st'') (pending st) \<and> set (pending st'') \<subseteq> set (pending st))"
proof (intro conjI impI ballI)
  fix s assume "s \<in> set (poll_iter_states w st)"
  then show "subseq (pending s) (pending st)" by (rule poll_iter_states_pending)
next
  assume it: "poll_iter w st = Inr st'"
  then show s: "subseq (pending st') (pending st)" by (rule poll_iter_moves(1))
  show "pending st' = pending st \<or> length (pending st') < length (pending st)"
  proof (cases "length (pending st') = length (pending st)")
    case True
    with s have "pending st' = pending st" by (rule subseq_same_length)
    then show ?thesis by simp
  next
    case False
    moreover from s have "length (pending st') \<le> length (pending st)"
      by (rule list_emb_length)
    ultimately show ?thesis by simp
  qed
next
  assume "poll_iters n w st = Inr st''"
  from poll_iters_moves[OF this] show s: "subseq (pending st'') (pending st)" by simp
  then show "set (pending st'') \<subseteq> set (pending st)" by (rule subseq_set)
qed

theorem pending_never_grows_witness:
  "\<exists>st st'. run 2 example_world example_builders
       (fst (init example_world example_config None None None empty_fs)) = Some (Inr st)
     \<and> poll_iter example_world st = Inr st' \<and> poll_iters 1 example_world st = Inr st'
     \<and> pending st = [2, 3] \<and> pending st' = []
     \<and> length (poll_iter_states example_world st) = 7
     \<and> (\<forall>s \<in> set (poll_iter_states example_world st). subseq (pending s) (pending st))
     \<and> subseq (pending st') (pending st) \<and> length (pending st') < length (pending st)"
proof -
  have "\<exists>st st'. run 2 example_world example_builders
       (fst (init example_world example_config None None None empty_fs)) = Some (Inr st)
     \<and> poll_iter example_world st = Inr st' \<and> poll_iters 1 example_world st = Inr st'
     \<and> pending st = [2, 3] \<and> pending st' = []
     \<and> length (poll_iter_states example_world st) = 7"
    by (simp add: example_simps poll_iter_states_def eval_nat_numeral)
  then obtain st st' where
    h: "run 2 example_world example_builders
         (fst (init example_world example_config None None None empty_fs)) = Some (Inr st)"
       "poll_iter example_world st = Inr st'" "poll_iters 1 example_world st = Inr st'"
    and v: "pending st = [2, 3]" "pending st' = []"
       "length (poll_iter_states example_world st) = 7"
    by blast
  from pending_never_grows[of example_world st st' 1 st'] h(2,3)
  have "subseq (pending st') (pending st)"
    "\<forall>s \<in> set (poll_iter_states example_world st). subseq (pending s) (pending st)"
    by blast+
  moreover have "length (pending st') < length (pending st)" using v by simp
  ultimately show ?thesis using h v by blast
qed

text \<open>
  C3. In an execution that constructs the orchestrator, calls \<^verbatim>\<open>run\<close> once and then
  polls, consider one more iteration of the polling loop and a builder that is pending
  when the iteration starts. If, after its backend's poll in this iteration, both
  \<^verbatim>\<open>is_complete()\<close> and \<^verbatim>\<open>is_failure()\<close> hold of the builder, the iteration moves it
  from pending to completed and not to cancelled.
\<close>

theorem complete_before_failure:
  assumes "run fuel w bs (fst (init w cfg account maxpendtime pi fs)) = Some (Inr st0)"
    and "poll_iters n w st0 = Inr st"
    and "poll_iter w st = Inr st'"
    and "r \<in> set (pending st)"
    and "is_complete (heap st' r)" and "is_failure (heap st' r)"
  shows "r \<in> completed st' \<and> r \<notin> cancelled st' \<and> r \<notin> set (pending st')"
proof -
  from assms(1) have "tracking_inv st0" unfolding fst_init by (rule run_init_inv)
  then have inv: "tracking_inv st" using assms(2) by (rule poll_iters_inv)
  from assms(3) obtain st2 c x st3 where
    sc: "poll_scan w (pending st) (st\<lparr>clock := clock st + pollinterval st\<rparr>) [] [] = Inr (st2, c, x)"
    and mc: "move_completed c st2 = Inr st3" and mx: "move_cancelled x st3 = Inr st'"
    by (rule poll_iter_Inr)
  from poll_iter_shape[OF inv sc] mc mx have
    c: "set c = {r \<in> set (pending st). is_complete (heap st2 r)}"
    and x: "set x = {r \<in> set (pending st). \<not> is_complete (heap st2 r) \<and> is_failure (heap st2 r)}"
    and p: "pending st' = filter (\<lambda>r. r \<notin> set c \<and> r \<notin> set x) (pending st)"
    and co: "completed st' = completed st \<union> set c"
    and ca: "cancelled st' = cancelled st \<union> set x"
    and h: "heap st' = heap st2"
    by auto
  from inv have nc: "set (pending st) \<inter> cancelled st = {}" by (simp add: tracking_inv_def)
  from assms(4,5) h c have rc: "r \<in> set c" by simp
  from assms(5) h x have rx: "r \<notin> set x" by simp
  from assms(4) nc have "r \<notin> cancelled st" by blast
  with rc rx co ca p show ?thesis by simp
qed

theorem complete_before_failure_witness:
  "\<exists>st0 st st'. run 2 example_world example_builders
       (fst (init example_world example_config None None None empty_fs)) = Some (Inr st0)
     \<and> poll_iters 0 example_world st0 = Inr st \<and> poll_iter example_world st = Inr st'
     \<and> 2 \<in> set (pending st) \<and> is_complete (heap st' 2) \<and> is_failure (heap st' 2)
     \<and> 2 \<in> completed st' \<and> 2 \<notin> cancelled st' \<and> 2 \<notin> set (pending st')"
proof -
  have "\<exists>st0 st st'. run 2 example_world example_builders
       (fst (init example_world example_config None None None empty_fs)) = Some (Inr st0)
     \<and> poll_iters 0 example_world st0 = Inr st \<and> poll_iter example_world st = Inr st'
     \<and> 2 \<in> set (pending st) \<and> is_complete (heap st' 2) \<and> is_failure (heap st' 2)"
    by (simp add: example_simps eval_nat_numeral)
  then obtain st0 st st' where
    h: "run 2 example_world example_builders
         (fst (init example_world example_config None None None empty_fs)) = Some (Inr st0)"
       "poll_iters 0 example_world st0 = Inr st" "poll_iter example_world st = Inr st'"
       "2 \<in> set (pending st)" "is_complete (heap st' 2)" "is_failure (heap st' 2)"
    by blast
  from complete_before_failure[OF h] h show ?thesis by blast
qed

text \<open>
  C4. Construct the orchestrator and call \<^verbatim>\<open>run\<close> once with the builders \<open>bs\<close>. The
  object that the unit of work of the \<open>i\<close>-th builder returns is the one with
  reference \<open>i\<close>. If that builder's executor is not local and its dispatch returns
  \<^verbatim>\<open>None\<close>, then after \<^verbatim>\<open>run\<close>, and after \<^verbatim>\<open>poll\<close> has returned, reference \<open>i\<close> is in
  none of the valid builders, pending, completed and cancelled, and it is not in the
  final report of cancelled jobs.
\<close>

theorem dispatch_failure_dropped:
  assumes "register_builders bs (fst (init w cfg account maxpendtime pi fs)) = Inr st1"
    and "i < length bs"
    and "choose_executor st1 (bs ! i) = Inr ex"
    and "e_type ex \<noteq> Local"
    and "w_dispatch w ex i (bs ! i) = None"
    and "run fuel w bs (fst (init w cfg account maxpendtime pi fs)) = Some (Inr st0)"
    and "poll fuel' w st0 = Some (Inr (st', report))"
  shows "i \<notin> set (validbuilders st0) \<and> i \<notin> set (pending st0)
       \<and> i \<notin> set (validbuilders st') \<and> i \<notin> set (pending st')
       \<and> i \<notin> completed st' \<and> i \<notin> cancelled st'
       \<and> i \<notin> (case report of None \<Rightarrow> {} | Some reported \<Rightarrow> reported)"
proof -
  from assms(6) obtain st1' rs where
    reg: "register_builders bs (init_fields cfg account maxpendtime pi) = Inr st1'"
    and sub: "submit w st1' 0 bs = Inr rs"
    and sv: "set (validbuilders st0) = {fst x |x. x \<in> set rs \<and> snd x \<noteq> None}"
    and p0: "pending st0 = filter (\<lambda>r. is_batch_job (heap st0 r)) (validbuilders st0)"
    and e0: "completed st0 = {}" "cancelled st0 = {}"
    unfolding fst_init by (rule run_init_result)
  from reg assms(1) have st1: "st1' = st1" unfolding fst_init by simp
  from submit_nth[OF sub assms(2), of ex] assms(3,4,5) st1
  have nth: "rs ! i = (i, None)" by simp
  from submit_fst[OF sub] have fsts: "map fst rs = [0..<length bs]" by simp
  then have len: "length rs = length bs" by (metis length_map length_upt minus_nat.diff_0)
  from fsts have dist: "distinct (map fst rs)" by simp
  have v0: "i \<notin> set (validbuilders st0)"
  proof
    assume "i \<in> set (validbuilders st0)"
    with sv obtain x where x: "x \<in> set rs" "fst x = i" "snd x \<noteq> None" by auto
    from assms(2) len have "rs ! i \<in> set rs" by simp
    with x(1,2) nth dist have "x = rs ! i" by (auto simp: distinct_map inj_on_def)
    with nth x(3) show False by simp
  qed
  from v0 p0 have p0': "i \<notin> set (pending st0)" by simp
  from poll_Inr_iters[OF assms(7)] have it: "poll_iters fuel' w st0 = Inr st'"
    and rep: "report = cancelled_report st'" by simp_all
  from poll_iters_moves[OF it] have
    mv: "subseq (pending st') (pending st0)" "subseq (validbuilders st') (validbuilders st0)"
        "completed st' \<subseteq> completed st0 \<union> set (pending st0)"
        "cancelled st' \<subseteq> cancelled st0 \<union> set (pending st0)" by simp_all
  from mv(1) p0' have 1: "i \<notin> set (pending st')" by (blast dest: subseq_set)
  from mv(2) v0 have 2: "i \<notin> set (validbuilders st')" by (blast dest: subseq_set)
  from mv(3) e0 p0' have 3: "i \<notin> completed st'" by blast
  from mv(4) e0 p0' have 4: "i \<notin> cancelled st'" by blast
  from 4 rep have 5: "i \<notin> (case report of None \<Rightarrow> {} | Some reported \<Rightarrow> reported)"
    by (simp add: cancelled_report_def)
  from v0 p0' 1 2 3 4 5 show ?thesis by simp
qed

theorem dispatch_failure_dropped_witness:
  "\<exists>st1 ex st0 st' report.
     register_builders example_builders
       (fst (init example_world example_config None None None empty_fs)) = Inr st1
     \<and> (1::nat) < length example_builders
     \<and> choose_executor st1 (example_builders ! 1) = Inr ex \<and> e_type ex \<noteq> Local
     \<and> w_dispatch example_world ex 1 (example_builders ! 1) = None
     \<and> run 2 example_world example_builders
         (fst (init example_world example_config None None None empty_fs)) = Some (Inr st0)
     \<and> poll 1 example_world st0 = Some (Inr (st', report))
     \<and> validbuilders st0 = [2, 3, 0] \<and> report = Some {3}
     \<and> 1 \<notin> set (validbuilders st') \<and> 1 \<notin> completed st' \<and> 1 \<notin> cancelled st'"
proof -
  have "\<exists>st1 ex st0 st' report.
     register_builders example_builders
       (fst (init example_world example_config None None None empty_fs)) = Inr st1
     \<and> (1::nat) < length example_builders
     \<and> choose_executor st1 (example_builders ! 1) = Inr ex \<and> e_type ex \<noteq> Local
     \<and> w_dispatch example_world ex 1 (example_builders ! 1) = None
     \<and> run 2 example_world example_builders
         (fst (init example_world example_config None None None empty_fs)) = Some (Inr st0)
     \<and> poll 1 example_world st0 = Some (Inr (st', report))
     \<and> validbuilders st0 = [2, 3, 0] \<and> report = Some {3}"
    by (simp add: example_simps eval_nat_numeral)
  then obtain st1 ex st0 st' report where
    h: "register_builders example_builders
         (fst (init example_world example_config None None None empty_fs)) = Inr st1"
       "(1::nat) < length example_builders"
       "choose_executor st1 (example_builders ! 1) = Inr ex" "e_type ex \<noteq> Local"
       "w_dispatch example_world ex 1 (example_builders ! 1) = None"
       "run 2 example_world example_builders
         (fst (init example_world example_config None None None empty_fs)) = Some (Inr st0)"
       "poll 1 example_world st0 = Some (Inr (st', report))"
    and v: "validbuilders st0 = [2, 3, 0]" "report = Some {3}"
    by blast
  from dispatch_failure_dropped[OF h]
  have "1 \<notin> set (validbuilders st')" "1 \<notin> completed st'" "1 \<notin> cancelled st'" by simp_all
  with h v show ?thesis by blast
qed

text \<open>
  C5, as the code has it. On a host with at least one execution unit, and with a
  configured worker count that is absent or not negative, the width that \<^verbatim>\<open>run\<close>
  computes for the pool is the smaller of the configured count (the host's count when
  it is absent or zero) and the host's count, and it is at least 1.
\<close>

theorem num_workers_width:
  assumes "1 \<le> cpus" and "configured = None \<or> (\<exists>n. configured = Some n \<and> 0 \<le> n)"
  shows "num_workers configured (Some cpus)
         = Inr (min (case configured of None \<Rightarrow> cpus | Some n \<Rightarrow> if n = 0 then cpus else n) cpus)
       \<and> 1 \<le> min (case configured of None \<Rightarrow> cpus | Some n \<Rightarrow> if n = 0 then cpus else n) cpus"
  using assms by (auto simp: num_workers_def py_or_def py_min_def split: option.splits)

theorem num_workers_width_witness:
  "(1::int) \<le> 4 \<and> num_workers (Some 8) (Some 4) = Inr 4 \<and> num_workers (Some 2) (Some 4) = Inr 2
   \<and> num_workers None (Some 4) = Inr 4 \<and> num_workers (Some 0) (Some 4) = Inr 4"
  using num_workers_width[of 4 "Some 8"] num_workers_width[of 4 "Some 2"]
    num_workers_width[of 4 None] num_workers_width[of 4 "Some 0"]
  by simp

text \<open>
  C5 as stated fails: a configured count of \<open>-1\<close> on a host with 4 execution units
  gives the width \<open>-1\<close>, which is below 1.
\<close>

theorem num_workers_negative_width:
  "num_workers (Some (- 1)) (Some 4) = Inr (- 1) \<and> \<not> 1 \<le> (- 1 :: int)"
  by (simp add: num_workers_def py_or_def py_min_def)

text \<open>
  C6. If some builder of the list given to \<^verbatim>\<open>run\<close> names an executor that is not
  registered, the first loop of \<^verbatim>\<open>run\<close> raises the executor error
  (\<^verbatim>\<open>ExecutorError\<close> in the source), and \<^verbatim>\<open>run\<close> ends with that error whatever the
  backends and the workers would do: the pool is never created and no builder is
  submitted.
\<close>

theorem unknown_executor_aborts:
  assumes "b \<in> set bs" and "get st (executor b) = None"
  shows "register_builders bs st = Inl ExecutorError
       \<and> run fuel w bs st = Some (Inl ExecutorError)"
proof -
  from assms have "register_builders bs st = Inl ExecutorError"
    by (rule register_builders_unknown)
  then show ?thesis by (simp add: run_def)
qed

theorem unknown_executor_aborts_witness:
  "\<lparr>name = ''lost'', executor = ''nowhere'', job = None, complete = False, failure = False\<rparr>
     \<in> set (example_builders
             @ [\<lparr>name = ''lost'', executor = ''nowhere'', job = None, complete = False,
                 failure = False\<rparr>])
   \<and> get (fst (init example_world example_config None None None empty_fs)) ''nowhere'' = None
   \<and> run 0 example_world
        (example_builders
           @ [\<lparr>name = ''lost'', executor = ''nowhere'', job = None, complete = False,
               failure = False\<rparr>])
        (fst (init example_world example_config None None None empty_fs))
      = Some (Inl ExecutorError)"
proof -
  let ?b = "\<lparr>name = ''lost'', executor = ''nowhere'', job = None, complete = False,
             failure = False\<rparr>"
  let ?st = "fst (init example_world example_config None None None empty_fs)"
  have 1: "?b \<in> set (example_builders @ [?b])" by simp
  have 2: "get ?st (executor ?b) = None"
    by (simp add: init_def init_fields_def init_kind_def new_executor_def get_def
        example_config_def Let_def)
  from unknown_executor_aborts[OF 1 2, of 0 example_world] 1 2 show ?thesis by simp
qed

text \<open>
  C7. In an execution that constructs the orchestrator, calls \<^verbatim>\<open>run\<close> once and then
  polls, no list removal of the polling loop raises. Whenever the scan of an iteration
  has returned, both loops that follow run to their end; neither any number of
  iterations nor \<^verbatim>\<open>poll\<close> as a whole ends in the \<^verbatim>\<open>ValueError\<close> of \<^verbatim>\<open>list.remove\<close>; and
  with a poll interval that is not negative they end in no \<^verbatim>\<open>ValueError\<close> at all (a
  negative interval makes \<^verbatim>\<open>time.sleep\<close> raise one). After any number of iterations the
  builders whose removal from the valid builders was attempted are exactly the
  cancelled ones, each was attempted exactly once, and none of them is a valid builder
  any more.
\<close>

theorem cancelled_removed_once:
  assumes "run fuel w bs (fst (init w cfg account maxpendtime pi fs)) = Some (Inr st0)"
  shows "poll_iters n w st0 \<noteq> Inl (ValueError not_in_list)
       \<and> poll fuel' w st0 \<noteq> Some (Inl (ValueError not_in_list))
       \<and> (0 \<le> pollinterval st0 \<longrightarrow>
            poll_iters n w st0 \<noteq> Inl (ValueError msg)
            \<and> poll fuel' w st0 \<noteq> Some (Inl (ValueError msg)))
       \<and> (poll_iters n w st0 = Inr st' \<longrightarrow>
            set (removals st') = cancelled st'
            \<and> (\<forall>r \<in> cancelled st'. count_list (removals st') r = 1
                  \<and> r \<notin> set (validbuilders st'))
            \<and> (\<forall>st2 c x.
                  poll_scan w (pending st') (st'\<lparr>clock := clock st' + pollinterval st'\<rparr>) [] []
                    = Inr (st2, c, x) \<longrightarrow>
                  (\<exists>st3 st4. move_completed c st2 = Inr st3 \<and> move_cancelled x st3 = Inr st4)))"
proof -
  from assms have inv: "tracking_inv st0" unfolding fst_init by (rule run_init_inv)
  have 1: "poll_iters n w st0 \<noteq> Inl (ValueError not_in_list)"
    using inv by (rule poll_iters_no_ValueError)
  have 2: "poll fuel' w st0 \<noteq> Some (Inl (ValueError not_in_list))"
  proof
    assume "poll fuel' w st0 = Some (Inl (ValueError not_in_list))"
    then have "poll_iters fuel' w st0 = Inl (ValueError not_in_list)" by (rule poll_Inl_iters)
    with poll_iters_no_ValueError[OF inv] show False by blast
  qed
  have 3: "poll_iters n w st0 \<noteq> Inl (ValueError msg)
         \<and> poll fuel' w st0 \<noteq> Some (Inl (ValueError msg))" if nn: "0 \<le> pollinterval st0"
  proof
    show "poll_iters n w st0 \<noteq> Inl (ValueError msg)"
      using poll_iters_only_AttributeError[OF inv nn] by blast
    show "poll fuel' w st0 \<noteq> Some (Inl (ValueError msg))"
    proof
      assume "poll fuel' w st0 = Some (Inl (ValueError msg))"
      then have "poll_iters fuel' w st0 = Inl (ValueError msg)" by (rule poll_Inl_iters)
      with poll_iters_only_AttributeError[OF inv nn] show False by blast
    qed
  qed
  have 4: "set (removals st') = cancelled st'
         \<and> (\<forall>r \<in> cancelled st'. count_list (removals st') r = 1 \<and> r \<notin> set (validbuilders st'))
         \<and> (\<forall>st2 c x.
               poll_scan w (pending st') (st'\<lparr>clock := clock st' + pollinterval st'\<rparr>) [] []
                 = Inr (st2, c, x) \<longrightarrow>
               (\<exists>st3 st4. move_completed c st2 = Inr st3 \<and> move_cancelled x st3 = Inr st4))"
    if "poll_iters n w st0 = Inr st'"
  proof -
    from inv that have inv': "tracking_inv st'" by (rule poll_iters_inv)
    then have d: "distinct (removals st')" and s: "set (removals st') = cancelled st'"
      and v: "set (validbuilders st') \<inter> cancelled st' = {}"
      by (simp_all add: tracking_inv_def)
    have "\<forall>r \<in> cancelled st'. count_list (removals st') r = 1"
    proof
      fix r assume "r \<in> cancelled st'"
      with s have "r \<in> set (removals st')" by simp
      with d show "count_list (removals st') r = 1" by (rule count_list_distinct)
    qed
    moreover have "\<forall>st2 c x.
               poll_scan w (pending st') (st'\<lparr>clock := clock st' + pollinterval st'\<rparr>) [] []
                 = Inr (st2, c, x) \<longrightarrow>
               (\<exists>st3 st4. move_completed c st2 = Inr st3 \<and> move_cancelled x st3 = Inr st4)"
      using poll_iter_shape[OF inv'] by blast
    ultimately show ?thesis using s v by blast
  qed
  from 1 2 3 4 show ?thesis by blast
qed

theorem cancelled_removed_once_witness:
  "\<exists>st0 st'. run 2 example_world example_builders
       (fst (init example_world example_config None None None empty_fs)) = Some (Inr st0)
     \<and> 0 \<le> pollinterval st0 \<and> poll_iters 1 example_world st0 = Inr st'
     \<and> validbuilders st0 = [2, 3, 0] \<and> cancelled st' = {3} \<and> validbuilders st' = [2, 0]
     \<and> count_list (removals st') 3 = 1
     \<and> poll 1 example_world st0 \<noteq> Some (Inl (ValueError not_in_list))
     \<and> poll 1 example_world st0 \<noteq> Some (Inl (ValueError negative_sleep))"
proof -
  have "\<exists>st0 st'. run 2 example_world example_builders
       (fst (init example_world example_config None None None empty_fs)) = Some (Inr st0)
     \<and> 0 \<le> pollinterval st0 \<and> poll_iters 1 example_world st0 = Inr st'
     \<and> validbuilders st0 = [2, 3, 0] \<and> cancelled st' = {3} \<and> validbuilders st' = [2, 0]"
    by (simp add: example_simps eval_nat_numeral)
  then obtain st0 st' where
    h: "run 2 example_world example_builders
         (fst (init example_world example_config None None None empty_fs)) = Some (Inr st0)"
    and nn: "0 \<le> pollinterval st0"
    and i: "poll_iters 1 example_world st0 = Inr st'"
    and v: "validbuilders st0 = [2, 3, 0]" "cancelled st' = {3}" "validbuilders st' = [2, 0]"
    by blast
  from cancelled_removed_once[OF h, of 1 1 negative_sleep st'] nn i v
  have "count_list (removals st') 3 = 1"
    "poll 1 example_world st0 \<noteq> Some (Inl (ValueError not_in_list))"
    "poll 1 example_world st0 \<noteq> Some (Inl (ValueError negative_sleep))"
    by simp_all
  with h nn i v show ?thesis by blast
qed

text \<open>
  C8, as the code has it. The constructor runs \<^verbatim>\<open>setup\<close>. Running \<^verbatim>\<open>setup\<close> again
  changes neither the directories nor any file, and the directory of every registered
  executor exists. When every registered name is a single path component (not empty,
  not \<^verbatim>\<open>.\<close> or \<^verbatim>\<open>..\<close>, without \<^verbatim>\<open>/\<close>), the file \<^verbatim>\<open>before_script.sh\<close> of every
  registered executor lies in the directory of its name under the executor directory
  and holds exactly the line \<^verbatim>\<open>#!/bin/bash\<close>, then every module command of its
  settings followed by a newline, in order (nothing when there are none), then its
  \<^verbatim>\<open>before_script\<close> text (nothing when absent).
\<close>

theorem setup_script_content:
  assumes "init w cfg account maxpendtime pi fs = (st, fs')"
  shows "setup_scripts w st fs' = fs'
       \<and> (get st n = Some e \<longrightarrow>
            os_path_join (BUILDTEST_EXECUTOR_DIR w) [n] \<in> dirs fs'
          \<and> ((\<forall>m \<in> set (names st). plain_name m) \<longrightarrow>
               os_path_join (BUILDTEST_EXECUTOR_DIR w) [n, ''before_script.sh'']
               = (if BUILDTEST_EXECUTOR_DIR w = [] \<or> last (BUILDTEST_EXECUTOR_DIR w) = CHR ''/''
                  then BUILDTEST_EXECUTOR_DIR w else BUILDTEST_EXECUTOR_DIR w @ ''/'')
                 @ n @ ''/before_script.sh''
             \<and> files fs' (os_path_join (BUILDTEST_EXECUTOR_DIR w) [n, ''before_script.sh''])
               = Some (''#!/bin/bash'' @ nl
                       @ (case get_module_commands w (module (e_settings e)) of
                            None \<Rightarrow> []
                          | Some cmds \<Rightarrow> concat (map (\<lambda>c. c @ nl) cmds))
                       @ (case before_script (e_settings e) of None \<Rightarrow> [] | Some t \<Rightarrow> t))))"
proof -
  from assms have fs': "fs' = fold (setup_executor w st) (names st) fs"
    by (auto simp: init_def Let_def setup_scripts_def)
  have idem: "setup_scripts w st fs' = fs'"
    unfolding fs' setup_scripts_def by (rule fold_setup_idem)
  have rest: "os_path_join (BUILDTEST_EXECUTOR_DIR w) [n] \<in> dirs fs'
          \<and> ((\<forall>m \<in> set (names st). plain_name m) \<longrightarrow>
               os_path_join (BUILDTEST_EXECUTOR_DIR w) [n, ''before_script.sh'']
               = (if BUILDTEST_EXECUTOR_DIR w = [] \<or> last (BUILDTEST_EXECUTOR_DIR w) = CHR ''/''
                  then BUILDTEST_EXECUTOR_DIR w else BUILDTEST_EXECUTOR_DIR w @ ''/'')
                 @ n @ ''/before_script.sh''
             \<and> files fs' (os_path_join (BUILDTEST_EXECUTOR_DIR w) [n, ''before_script.sh''])
               = Some (''#!/bin/bash'' @ nl
                       @ (case get_module_commands w (module (e_settings e)) of
                            None \<Rightarrow> []
                          | Some cmds \<Rightarrow> concat (map (\<lambda>c. c @ nl) cmds))
                       @ (case before_script (e_settings e) of None \<Rightarrow> [] | Some t \<Rightarrow> t)))"
    if g: "get st n = Some e"
  proof -
    from g have n: "n \<in> set (names st)"
      by (auto simp: get_def names_def dest: map_of_SomeD intro: rev_image_eqI)
    have d: "os_path_join (BUILDTEST_EXECUTOR_DIR w) [n] \<in> dirs fs'"
      unfolding fs' using n by (simp add: fold_setup_dirs)
    have "os_path_join (BUILDTEST_EXECUTOR_DIR w) [n, ''before_script.sh'']
               = (if BUILDTEST_EXECUTOR_DIR w = [] \<or> last (BUILDTEST_EXECUTOR_DIR w) = CHR ''/''
                  then BUILDTEST_EXECUTOR_DIR w else BUILDTEST_EXECUTOR_DIR w @ ''/'')
                 @ n @ ''/before_script.sh''
             \<and> files fs' (os_path_join (BUILDTEST_EXECUTOR_DIR w) [n, ''before_script.sh''])
               = Some (''#!/bin/bash'' @ nl
                       @ (case get_module_commands w (module (e_settings e)) of
                            None \<Rightarrow> []
                          | Some cmds \<Rightarrow> concat (map (\<lambda>c. c @ nl) cmds))
                       @ (case before_script (e_settings e) of None \<Rightarrow> [] | Some t \<Rightarrow> t))"
      if p: "\<forall>m \<in> set (names st). plain_name m"
    proof -
      from p n have "plain_name n" by simp
      then have a: "os_path_join (BUILDTEST_EXECUTOR_DIR w) [n, ''before_script.sh'']
               = (if BUILDTEST_EXECUTOR_DIR w = [] \<or> last (BUILDTEST_EXECUTOR_DIR w) = CHR ''/''
                  then BUILDTEST_EXECUTOR_DIR w else BUILDTEST_EXECUTOR_DIR w @ ''/'')
                 @ n @ ''/before_script.sh''"
        by (rule script_path_plain)
      have "files fs' (os_path_join (BUILDTEST_EXECUTOR_DIR w) [n, ''before_script.sh''])
            = Some (script_content w (e_settings e))"
        unfolding fs' using n g p by (rule fold_setup_files_in)
      then have b: "files fs' (os_path_join (BUILDTEST_EXECUTOR_DIR w) [n, ''before_script.sh''])
               = Some (''#!/bin/bash'' @ nl
                       @ (case get_module_commands w (module (e_settings e)) of
                            None \<Rightarrow> []
                          | Some cmds \<Rightarrow> concat (map (\<lambda>c. c @ nl) cmds))
                       @ (case before_script (e_settings e) of None \<Rightarrow> [] | Some t \<Rightarrow> t))"
        by (subst (asm) script_content_lines)
      from a b show ?thesis by (rule conjI)
    qed
    with d show ?thesis by blast
  qed
  from idem rest show ?thesis by blast
qed

theorem setup_script_content_witness:
  "\<exists>st fs' e. init example_world example_config None None None empty_fs = (st, fs')
     \<and> get st ''debug'' = Some e
     \<and> (\<forall>m \<in> set (names st). plain_name m)
     \<and> files fs' ''/var/executors/debug/before_script.sh''
       = Some (''#!/bin/bash'' @ nl @ ''module purge'' @ nl @ ''module load gcc'' @ nl
               @ ''module list'' @ nl)
     \<and> files fs' ''/var/executors/bash/before_script.sh''
       = Some (''#!/bin/bash'' @ nl @ ''export X=1'')
     \<and> ''/var/executors/debug'' \<in> dirs fs'
     \<and> setup_scripts example_world st fs' = fs'"
proof -
  obtain st fs' where i: "init example_world example_config None None None empty_fs = (st, fs')"
    by (cases "init example_world example_config None None None empty_fs")
  then have st: "st = init_fields example_config None None None"
    by (auto simp: init_def Let_def)
  have g: "get st ''debug'' = Some (new_executor Slurm None None ''debug''
              \<lparr>module = Some ''gcc'', before_script = None\<rparr>)"
    unfolding st by (simp add: init_fields_def init_kind_def get_def example_config_def Let_def)
  have g': "get st ''bash'' = Some (new_executor Local None None ''bash''
              \<lparr>module = None, before_script = Some ''export X=1''\<rparr>)"
    unfolding st by (simp add: init_fields_def init_kind_def get_def example_config_def Let_def)
  have p: "\<forall>m \<in> set (names st). plain_name m"
    unfolding st
    by (simp add: init_fields_def init_kind_def names_def example_config_def Let_def
        plain_name_def)
  from setup_script_content[OF i, of "''debug''"] setup_script_content[OF i, of "''bash''"] g g' p
  have "files fs' ''/var/executors/debug/before_script.sh''
       = Some (''#!/bin/bash'' @ nl @ ''module purge'' @ nl @ ''module load gcc'' @ nl
               @ ''module list'' @ nl)"
    "files fs' ''/var/executors/bash/before_script.sh''
       = Some (''#!/bin/bash'' @ nl @ ''export X=1'')"
    "''/var/executors/debug'' \<in> dirs fs'"
    "setup_scripts example_world st fs' = fs'"
    by (simp_all add: os_path_join_def join_component_def example_world_def new_executor_def)
  with i g p show ?thesis by blast
qed

text \<open>
  C8 as stated fails for names that are not single path components. With the two local
  executors \<^verbatim>\<open>x\<close> (before-script \<^verbatim>\<open>FIRST\<close>) and \<^verbatim>\<open>x/\<close> (before-script \<^verbatim>\<open>SECOND\<close>),
  \<^verbatim>\<open>os.path.join\<close> gives both the script path \<^verbatim>\<open>/var/executors/x/before_script.sh\<close>,
  and the file written for \<^verbatim>\<open>x\<close> is overwritten with the text of \<^verbatim>\<open>x/\<close>.
\<close>

theorem setup_script_overwritten:
  "\<exists>st fs' e. init example_world collision_config None None None empty_fs = (st, fs')
     \<and> get st ''x'' = Some e
     \<and> get_module_commands example_world (module (e_settings e)) = None
     \<and> before_script (e_settings e) = Some ''FIRST''
     \<and> os_path_join (BUILDTEST_EXECUTOR_DIR example_world) [''x'', ''before_script.sh'']
       = ''/var/executors/x/before_script.sh''
     \<and> os_path_join (BUILDTEST_EXECUTOR_DIR example_world) [''x/'', ''before_script.sh'']
       = ''/var/executors/x/before_script.sh''
     \<and> files fs' ''/var/executors/x/before_script.sh'' = Some (''#!/bin/bash'' @ nl @ ''SECOND'')
     \<and> files fs' ''/var/executors/x/before_script.sh'' \<noteq> Some (''#!/bin/bash'' @ nl @ ''FIRST'')"
  by (simp add: init_def init_fields_def init_kind_def get_def names_def collision_config_def
      example_world_def new_executor_def setup_scripts_def setup_executor_def create_dir_def
      write_file_def script_content_def os_path_join_def join_component_def empty_fs_def
      Let_def nl_def)

text \<open>
  C9, as the code has it. When the constructor is given no poll interval and the
  configuration has none, the poll interval is 30. A constructor argument other than
  0 is the poll interval, whatever the configuration says; an argument of 0 counts as
  not given.
\<close>

theorem pollinterval_default:
  "(cfg_pollinterval cfg = None \<longrightarrow>
      pollinterval (fst (init w cfg account maxpendtime None fs)) = 30)
   \<and> (p \<noteq> 0 \<longrightarrow> pollinterval (fst (init w cfg account maxpendtime (Some p) fs)) = p)
   \<and> pollinterval (fst (init w cfg account maxpendtime (Some 0) fs))
     = pollinterval (fst (init w cfg account maxpendtime None fs))"
  by (simp add: init_def init_fields_def py_or_def Let_def split: option.splits)

theorem pollinterval_default_witness:
  "cfg_pollinterval example_config = None
   \<and> pollinterval (fst (init example_world example_config None None None empty_fs)) = 30
   \<and> (5::int) \<noteq> 0
   \<and> pollinterval (fst (init example_world (example_config\<lparr>cfg_pollinterval := Some 10\<rparr>)
                          None None (Some 5) empty_fs)) = 5"
  using pollinterval_default[of example_config example_world None None empty_fs 5]
    pollinterval_default[of "example_config\<lparr>cfg_pollinterval := Some 10\<rparr>" example_world
      None None empty_fs 5]
  by (simp add: example_config_def)

text \<open>
  C9 as stated fails: with the constructor argument 0 and the configured interval 10,
  the poll interval is 10, not the argument.
\<close>

theorem pollinterval_zero_argument:
  "pollinterval (fst (init example_world (example_config\<lparr>cfg_pollinterval := Some 10\<rparr>)
                       None None (Some 0) empty_fs)) = 10"
  by (simp add: init_def init_fields_def py_or_def Let_def example_config_def)

text \<open>
  C10. For a name that is not registered, \<^verbatim>\<open>get\<close> returns \<^verbatim>\<open>None\<close> and raises nothing;
  \<^verbatim>\<open>_choose_executor\<close> is what turns such a name, as the executor of a builder, into
  the executor error.
\<close>

theorem get_unknown_is_None:
  assumes "n \<notin> set (names st)"
  shows "get st n = None \<and> (\<forall>b. executor b = n \<longrightarrow> choose_executor st b = Inl ExecutorError)"
proof -
  from assms have "get st n = None"
    by (simp add: get_def names_def map_of_eq_None_iff)
  then show ?thesis by (simp add: choose_executor_def)
qed

theorem get_unknown_is_None_witness:
  "''nowhere'' \<notin> set (names (fst (init example_world example_config None None None empty_fs)))
   \<and> get (fst (init example_world example_config None None None empty_fs)) ''nowhere'' = None
   \<and> choose_executor (fst (init example_world example_config None None None empty_fs))
        \<lparr>name = ''lost'', executor = ''nowhere'', job = None, complete = False, failure = False\<rparr>
      = Inl ExecutorError
   \<and> get (fst (init example_world example_config None None None empty_fs)) ''debug'' \<noteq> None"
proof -
  let ?st = "fst (init example_world example_config None None None empty_fs)"
  have 1: "''nowhere'' \<notin> set (names ?st)"
    by (simp add: init_def init_fields_def init_kind_def new_executor_def names_def
        example_config_def Let_def)
  have 2: "get ?st ''debug'' \<noteq> None"
    by (simp add: init_def init_fields_def init_kind_def new_executor_def get_def
        example_config_def Let_def)
  from get_unknown_is_None[OF 1] 1 2 show ?thesis by simp
qed

end
